theory Spec2Isabelle
  imports Main "HOL-Library.AList" "HOL-Library.Multiset"
begin

section \<open>JavaScript containers\<close>

text \<open>
  A JavaScript \<open>Set<string>\<close> keeps its elements in insertion order and ignores the
  insertion of an element it already holds; it is modelled as a list.  A
  \<open>Map<string, string>\<close> keeps its entries in insertion order, \<open>set\<close> on a key that is
  present replaces the value in place and on a new key appends the entry: that is
  \<open>AList.update\<close> on an association list.
\<close>

definition set_add :: "'a \<Rightarrow> 'a list \<Rightarrow> 'a list" where
  "set_add x xs = (if x \<in> set xs then xs else xs @ [x])"

definition set_has :: "'a list \<Rightarrow> 'a \<Rightarrow> bool" where
  "set_has xs x = (x \<in> set xs)"

definition map_set :: "'k \<Rightarrow> 'v \<Rightarrow> ('k \<times> 'v) list \<Rightarrow> ('k \<times> 'v) list" where
  "map_set k v m = AList.update k v m"

text \<open>\<open>new Set(iterable)\<close> and \<open>new Map(entries)\<close>.\<close>

definition set_of :: "'a list \<Rightarrow> 'a list" where
  "set_of xs = fold set_add xs []"

definition map_from :: "('k \<times> 'v) list \<Rightarrow> ('k \<times> 'v) list" where
  "map_from entries = fold (\<lambda>(k, v). map_set k v) entries []"

section \<open>The checkpoint store (src/src/checkpoint.ts)\<close>

text \<open>The interface \<open>CheckpointData\<close>; indices and the timestamp are natural numbers.\<close>

record CheckpointData =
  processedIdentifiers :: "string list"
  renames :: "(string \<times> string) list"
  currentFileIndex :: nat
  currentIdentifierIndex :: nat
  timestamp :: nat

text \<open>
  Modelled from the spec: the declarations of \<open>PartialResultsData\<close> and \<open>PartialResult\<close>
  are not among the source files.  A shard is a JSON object; the fields are the ones the
  callers and the tests of the repository write (\<open>renames\<close>, \<open>processedCount\<close> in the
  tests of the store; \<open>originalName\<close>, \<open>newName\<close>, \<open>timestamp\<close> in the identifier
  visitor), each of them optional.
\<close>

record PartialResult =
  pr_renames :: "(string \<times> string) list option"
  pr_processedCount :: "nat option"
  originalName :: "string option"
  newName :: "string option"
  pr_timestamp :: "nat option"

text \<open>
  The persistent store under \<open>outputDir\<close>: the file \<open>.checkpoints/checkpoint.json\<close>
  (absent or holding a record), the files \<open>.checkpoints/partial_<label>_<time>.json\<close> in
  the order in which the directory enumerates them, each named by the pair of its label
  and its time, and the file \<open>rename-mappings.json\<close>.  File contents are kept as the
  values that \<open>JSON.parse\<close> gives back; the file system is taken to be reliable, so the
  only failure of a file operation is that the file is not there.
\<close>

record store =
  checkpointFile :: "CheckpointData option"
  partialFiles :: "((string \<times> nat) \<times> PartialResult) list"
  mappingFile :: "(string \<times> string) list option"

definition saveCheckpoint :: "CheckpointData \<Rightarrow> store \<Rightarrow> store" where
  "saveCheckpoint data s = s\<lparr>checkpointFile := Some data\<rparr>"

text \<open>\<open>loadCheckpoint\<close> builds the set and the map anew from the arrays of the file.\<close>

definition loadCheckpoint :: "store \<Rightarrow> CheckpointData option" where
  "loadCheckpoint s =
     (case checkpointFile s of
        None \<Rightarrow> None
      | Some parsed \<Rightarrow>
          Some \<lparr>processedIdentifiers = set_of (processedIdentifiers parsed),
                renames = map_from (renames parsed),
                currentFileIndex = currentFileIndex parsed,
                currentIdentifierIndex = currentIdentifierIndex parsed,
                timestamp = timestamp parsed\<rparr>)"

definition hasCheckpoint :: "store \<Rightarrow> bool" where
  "hasCheckpoint s = (checkpointFile s \<noteq> None)"

definition clearCheckpoint :: "store \<Rightarrow> store" where
  "clearCheckpoint s = s\<lparr>checkpointFile := None\<rparr>"

text \<open>
  \<open>path.basename\<close> of Node on a POSIX path: trailing slashes are dropped, then what
  follows the last slash is kept.
\<close>

definition basename :: "string \<Rightarrow> string" where
  "basename p =
     rev (takeWhile (\<lambda>c. c \<noteq> CHR ''/'') (dropWhile (\<lambda>c. c = CHR ''/'') (rev p)))"

text \<open>
  \<open>savePartialResults\<close> reads the clock once for the file name (\<open>now\<close>);
  \<open>fs.writeFile\<close> replaces a file of the same name and creates it otherwise.
\<close>

definition savePartialResults :: "string \<Rightarrow> PartialResult \<Rightarrow> nat \<Rightarrow> store \<Rightarrow> store" where
  "savePartialResults filename data now s =
     s\<lparr>partialFiles := AList.update (basename filename, now) data (partialFiles s)\<rparr>"

definition loadPartialResults :: "store \<Rightarrow> PartialResult list" where
  "loadPartialResults s = map snd (partialFiles s)"

text \<open>The inner loop of \<open>mergePartialResults\<close>: every pair of one shard is set in the map.\<close>

fun mergeEntries :: "(string \<times> string) list \<Rightarrow> (string \<times> string) list \<Rightarrow> (string \<times> string) list" where
  "mergeEntries merged [] = merged"
| "mergeEntries merged ((key, val) # rest) = mergeEntries (map_set key val merged) rest"

text \<open>The outer loop: a shard without a \<open>renames\<close> field is passed over.\<close>

fun mergeResults :: "(string \<times> string) list \<Rightarrow> PartialResult list \<Rightarrow> (string \<times> string) list" where
  "mergeResults merged [] = merged"
| "mergeResults merged (result # rest) =
     mergeResults (case pr_renames result of
                     None \<Rightarrow> merged
                   | Some entries \<Rightarrow> mergeEntries merged entries) rest"

definition mergePartialResults :: "store \<Rightarrow> (string \<times> string) list" where
  "mergePartialResults s = mergeResults [] (loadPartialResults s)"

text \<open>
  The shard that the identifier visitor writes after an accepted rename (lines 101-105 of
  visit-all-identifiers-with-checkpoint.ts): an original name, a new name, a timestamp.
\<close>

definition renameShard :: "string \<Rightarrow> string \<Rightarrow> nat \<Rightarrow> PartialResult" where
  "renameShard orig new t =
     \<lparr>pr_renames = None, pr_processedCount = None,
      originalName = Some orig, newName = Some new, pr_timestamp = Some t\<rparr>"

definition emptyStore :: store where
  "emptyStore = \<lparr>checkpointFile = None, partialFiles = [], mappingFile = None\<rparr>"

section \<open>Context windows (scopeToString)\<close>

text \<open>
  \<open>String.prototype.slice\<close>: an index is truncated to an integer, a negative index counts
  from the end, both are clamped to the string, and an empty string results when the
  first index is not below the second.
\<close>

definition slice_index :: "nat \<Rightarrow> int \<Rightarrow> nat" where
  "slice_index len i = (if i < 0 then nat (max (int len + i) 0) else min (nat i) len)"

definition slice :: "'a list \<Rightarrow> int \<Rightarrow> int \<Rightarrow> 'a list" where
  "slice s a b =
     (let from = slice_index (length s) a; to = slice_index (length s) b
      in take (to - from) (drop from s))"

text \<open>\<open>s.slice(a)\<close>, with no second index, runs to the end of the string.\<close>

definition slice_from :: "'a list \<Rightarrow> int \<Rightarrow> 'a list" where
  "slice_from s a = drop (slice_index (length s) a) s"

text \<open>
  The window size is an integer \<open>W\<close>, and \<open>W / 2\<close> is a JavaScript number that has a
  fractional part when \<open>W\<close> is odd.  Comparisons with \<open>W / 2\<close> are written on the doubled
  values; an index \<open>n / 2\<close> handed to \<open>slice\<close> is truncated towards zero.
\<close>

definition trunc_half :: "int \<Rightarrow> int" where
  "trunc_half n = (if 0 \<le> n then n div 2 else - ((- n) div 2))"

text \<open>
  \<open>scopeToString\<close>.  The text of the surrounding path, whether that path is the program,
  and the offsets of the identifier come from the parser; \<open>node.start\<close> and \<open>node.end\<close>
  may be missing.
\<close>

definition scopeToString :: "'a list \<Rightarrow> bool \<Rightarrow> int option \<Rightarrow> int option \<Rightarrow> int \<Rightarrow> 'a list" where
  "scopeToString code isProgram nodeStart nodeEnd contextWindowSize =
     (if int (length code) < contextWindowSize then code
      else if isProgram then
        (let start = (case nodeStart of None \<Rightarrow> 0 | Some s \<Rightarrow> s);
             endpos = (case nodeEnd of None \<Rightarrow> int (length code) | Some e \<Rightarrow> e)
         in if 2 * endpos < contextWindowSize then slice code 0 contextWindowSize
            else if 2 * start > 2 * int (length code) - contextWindowSize
              then slice_from code (- contextWindowSize)
            else slice code (trunc_half (2 * start - contextWindowSize))
                            (trunc_half (2 * endpos + contextWindowSize)))
      else slice code 0 contextWindowSize)"

section \<open>Sorting (Array.prototype.sort)\<close>

text \<open>
  \<open>Array.prototype.sort\<close> with a comparator is stable; for a comparator that is a
  consistent order, the result is the one of a stable insertion sort, which puts \<open>x\<close>
  before the first \<open>y\<close> with \<open>cmp x y \<le> 0\<close>.
\<close>

fun insertBy :: "('a \<Rightarrow> 'a \<Rightarrow> int) \<Rightarrow> 'a \<Rightarrow> 'a list \<Rightarrow> 'a list" where
  "insertBy cmp x [] = [x]"
| "insertBy cmp x (y # ys) = (if cmp x y \<le> 0 then x # y # ys else y # insertBy cmp x ys)"

definition array_sort :: "('a \<Rightarrow> 'a \<Rightarrow> int) \<Rightarrow> 'a list \<Rightarrow> 'a list" where
  "array_sort cmp xs = foldr (insertBy cmp) xs []"

section \<open>The identifier visitor (visit-all-identifiers-with-checkpoint.ts)\<close>

text \<open>
  What is thrown: an error of the visitor or of the library (\<open>Thrown\<close>), or one of the
  three errors that the visitor function raises itself.
\<close>

datatype error = Thrown string | NoIdentifiersFound | FailedToParse | FailedToStringify

text \<open>
  The calls that leave the visitor function, in the order in which they are made: the
  call of the visitor with a name and its surrounding code, and the calls of the
  checkpoint manager.  \<open>SavePartialResults\<close> carries the label, the data and the time
  that the manager reads for the file name.
\<close>

datatype event =
    Visitor string string
  | SavePartialResults string PartialResult nat
  | SaveCheckpoint CheckpointData
  | ClearCheckpoint

text \<open>
  The parser library and the callbacks are parameters of the model.  An \<open>'ast\<close> is a
  state of the syntax tree, which the renames mutate; a \<open>'p\<close> is a path to a binding
  node of the tree, which outlives the renames.  \<open>bindingIdentifiers\<close> lists the paths
  that the traversal hands to the \<open>BindingIdentifier\<close> visitor, in traversal order;
  \<open>parents\<close> lists the ancestors of a path from the nearest on, as \<open>findParent\<close> walks
  them; \<open>outerBindingIdentifiers\<close> lists the keys of \<open>p.getOuterBindingIdentifiers()\<close>;
  \<open>scopePathOf\<close> is \<open>p.scope.path\<close>; \<open>blockStart\<close> and \<open>blockEnd\<close> are the offsets of the
  node of a path; \<open>pathToString\<close> is the text that the template literal makes of a path;
  \<open>scopeBindings\<close> lists the names for which \<open>path.scope.hasBinding\<close> holds (the scope
  chain and the globals are finite); \<open>scopeRename\<close> is \<open>path.scope.rename\<close>, which may
  throw.  The visitor may answer differently at each call: it is given the calls made so
  far.  \<open>dateNow n\<close> is the value of the \<open>n\<close>-th reading of the clock.
\<close>

record ('ast, 'p) env =
  parseAsync :: "string \<Rightarrow> error + 'ast option"
  bindingIdentifiers :: "'ast \<Rightarrow> 'p list"
  parents :: "'ast \<Rightarrow> 'p \<Rightarrow> 'p list"
  isProgram :: "'ast \<Rightarrow> 'p \<Rightarrow> bool"
  outerBindingIdentifiers :: "'ast \<Rightarrow> 'p \<Rightarrow> string list"
  scopePathOf :: "'ast \<Rightarrow> 'p \<Rightarrow> 'p"
  blockStart :: "'ast \<Rightarrow> 'p \<Rightarrow> int"
  blockEnd :: "'ast \<Rightarrow> 'p \<Rightarrow> int"
  pathToString :: "'ast \<Rightarrow> 'p \<Rightarrow> string"
  nodeName :: "'ast \<Rightarrow> 'p \<Rightarrow> string"
  nodeType :: "'ast \<Rightarrow> 'p \<Rightarrow> string"
  nodeStart :: "'ast \<Rightarrow> 'p \<Rightarrow> int option"
  nodeEnd :: "'ast \<Rightarrow> 'p \<Rightarrow> int option"
  scopeBindings :: "'ast \<Rightarrow> 'p \<Rightarrow> string list"
  scopeRename :: "'ast \<Rightarrow> 'p \<Rightarrow> string \<Rightarrow> string \<Rightarrow> error + 'ast"
  toIdentifier :: "string \<Rightarrow> string"
  transformFromAstAsync :: "'ast \<Rightarrow> error + string option"
  visitor :: "event list \<Rightarrow> string \<Rightarrow> string \<Rightarrow> error + string"
  dateNow :: "nat \<Rightarrow> nat"

text \<open>
  \<open>closestSurroundingContextPath\<close>: the nearest ancestor that is the program or that has
  the name of the identifier among its outer binding identifiers gives the path of its
  scope; when there is no such ancestor, the path of the scope of the identifier itself.
\<close>

definition closestSurroundingContextPath :: "('ast, 'p) env \<Rightarrow> 'ast \<Rightarrow> 'p \<Rightarrow> 'p" where
  "closestSurroundingContextPath env ast path =
     (case find (\<lambda>p. isProgram env ast p \<or>
                        nodeName env ast path \<in> set (outerBindingIdentifiers env ast p))
             (parents env ast path) of
        None \<Rightarrow> scopePathOf env ast path
      | Some programOrBindingNode \<Rightarrow> scopePathOf env ast programOrBindingNode)"

text \<open>
  \<open>findScopes\<close>.  For each binding identifier the traversal pushes the path and the size
  of the block of the scope of its closest surrounding context (\<open>pathSizes\<close> is the array
  \<open>scopes\<close> after the traversal); the array is sorted by size, larger first, and the
  paths are returned.
\<close>

definition pathSize :: "('ast, 'p) env \<Rightarrow> 'ast \<Rightarrow> 'p \<Rightarrow> int" where
  "pathSize env ast path =
     (let bindingBlock = scopePathOf env ast (closestSurroundingContextPath env ast path)
      in blockEnd env ast bindingBlock - blockStart env ast bindingBlock)"

definition pathSizes :: "('ast, 'p) env \<Rightarrow> 'ast \<Rightarrow> ('p \<times> int) list" where
  "pathSizes env ast = map (\<lambda>path. (path, pathSize env ast path)) (bindingIdentifiers env ast)"

definition sortedScopes :: "('ast, 'p) env \<Rightarrow> 'ast \<Rightarrow> ('p \<times> int) list" where
  "sortedScopes env ast = array_sort (\<lambda>a b. snd b - snd a) (pathSizes env ast)"

definition findScopes :: "('ast, 'p) env \<Rightarrow> 'ast \<Rightarrow> 'p list" where
  "findScopes env ast = map fst (sortedScopes env ast)"


text \<open>
  \<open>VisitOptions\<close>.  The manager is an object on the store; the options say whether there is
  one.
\<close>

record VisitOptions =
  checkpointManager :: bool
  saveInterval :: "nat option"

text \<open>
  The local variables of \<open>visitAllIdentifiersWithCheckpoint\<close>: the tree, the sets
  \<open>renames\<close>, \<open>visited\<close> and \<open>processedIdentifiers\<close>, the map \<open>renamesMap\<close>, the counter
  \<open>processedCount\<close>; with them the number of clock readings and the calls made so far.
\<close>

record 'ast vstate =
  v_ast :: 'ast
  v_renames :: "string list"
  v_visited :: "string list"
  v_processedIdentifiers :: "string list"
  v_renamesMap :: "(string \<times> string) list"
  v_processedCount :: nat
  v_ticks :: nat
  v_trace :: "event list"

text \<open>Decimal digits of a number, as a template literal prints it.\<close>

definition digit :: "nat \<Rightarrow> char" where
  "digit n = ''0123456789'' ! (n mod 10)"

function digits :: "nat \<Rightarrow> string" where
  "digits n = (if n < 10 then [digit n] else digits (n div 10) @ [digit (n mod 10)])"
  by pat_completeness auto
termination
  by (relation "measure (\<lambda>n. n)") auto

declare digits.simps [simp del]

text \<open>
  The loop \<open>while (renames.has(safeRenamed) || scope.hasBinding(safeRenamed))\<close>, which
  puts an underscore in front of the candidate.  The tree does not change during the
  loop, so the names bound in the scope are a fixed list.
\<close>

function avoidCollisions :: "string list \<Rightarrow> string list \<Rightarrow> string \<Rightarrow> string" where
  "avoidCollisions taken bound safeRenamed =
     (if set_has taken safeRenamed \<or> safeRenamed \<in> set bound
      then avoidCollisions taken bound (CHR ''_'' # safeRenamed)
      else safeRenamed)"
  by pat_completeness auto
termination
proof (relation "measure (\<lambda>(taken, bound, safeRenamed).
          length (filter (\<lambda>n. length safeRenamed \<le> length n) (taken @ bound)))")
  show "wf (measure (\<lambda>(taken, bound, safeRenamed).
          length (filter (\<lambda>n. length safeRenamed \<le> length n) (taken @ bound))))"
    by simp
next
  fix taken bound :: "string list" and safeRenamed :: string
  assume "set_has taken safeRenamed \<or> safeRenamed \<in> set bound"
  then have mem: "safeRenamed \<in> set (taken @ bound)"
    by (auto simp: set_has_def)
  let ?long = "filter (\<lambda>n. length safeRenamed \<le> length n) (taken @ bound)"
  have both: "(\<lambda>n::string. length safeRenamed \<le> length n \<and> Suc (length safeRenamed) \<le> length n)
        = (\<lambda>n. Suc (length safeRenamed) \<le> length n)"
    by auto
  have "filter (\<lambda>n. Suc (length safeRenamed) \<le> length n) (taken @ bound)
        = filter (\<lambda>n. Suc (length safeRenamed) \<le> length n) ?long"
    by (simp add: both)
  moreover have "length (filter (\<lambda>n. Suc (length safeRenamed) \<le> length n) ?long) < length ?long"
    by (rule length_filter_less [of safeRenamed]) (use mem in auto)
  ultimately have "length (filter (\<lambda>n. Suc (length safeRenamed) \<le> length n) (taken @ bound))
        < length (filter (\<lambda>n. length safeRenamed \<le> length n) (taken @ bound))"
    by simp
  then show "((taken, bound, CHR ''_'' # safeRenamed), (taken, bound, safeRenamed))
        \<in> measure (\<lambda>(taken, bound, safeRenamed).
            length (filter (\<lambda>n. length safeRenamed \<le> length n) (taken @ bound)))"
    by simp
qed

declare avoidCollisions.simps [simp del]

text \<open>\<open>checkpointManager.saveCheckpoint({...})\<close> as both the periodic save and the save on
  an error write it; the file index is the constant 0.\<close>

definition saveProgress :: "('ast, 'p) env \<Rightarrow> 'ast vstate \<Rightarrow> 'ast vstate" where
  "saveProgress env st =
     st\<lparr>v_ticks := v_ticks st + 1,
        v_trace := v_trace st @
          [SaveCheckpoint \<lparr>processedIdentifiers = v_processedIdentifiers st,
                           renames = v_renamesMap st,
                           currentFileIndex = 0,
                           currentIdentifierIndex = v_processedCount st,
                           timestamp = dateNow env (v_ticks st)\<rparr>]\<rparr>"

text \<open>
  The branch \<open>if (renamed !== smallestScopeNode.name)\<close>.  The node is read again after
  the rename: the label and \<open>originalName\<close> of the shard are the name of the node in the
  renamed tree.
\<close>

definition applyRename ::
  "('ast, 'p) env \<Rightarrow> bool \<Rightarrow> 'p \<Rightarrow> string \<Rightarrow> 'ast vstate \<Rightarrow> (error \<times> 'ast vstate) + 'ast vstate" where
  "applyRename env manager smallestScope renamed st =
     (let name = nodeName env (v_ast st) smallestScope;
          safeRenamed = avoidCollisions (v_renames st)
                          (scopeBindings env (v_ast st) smallestScope) (toIdentifier env renamed);
          st1 = st\<lparr>v_renames := set_add safeRenamed (v_renames st),
                   v_renamesMap := map_set name safeRenamed (v_renamesMap st)\<rparr>
      in case scopeRename env (v_ast st) smallestScope name safeRenamed of
           Inl e \<Rightarrow> Inl (e, st1)
         | Inr ast' \<Rightarrow>
             (let st2 = st1\<lparr>v_ast := ast'\<rparr>;
                  name' = nodeName env ast' smallestScope
              in if manager then
                   Inr (st2\<lparr>v_ticks := v_ticks st2 + 3,
                           v_trace := v_trace st2 @
                             [SavePartialResults
                                (''rename_'' @ digits (dateNow env (v_ticks st2)) @ ''_'' @ name')
                                \<lparr>pr_renames = None, pr_processedCount = None,
                                 originalName = Some name', newName = Some safeRenamed,
                                 pr_timestamp = Some (dateNow env (v_ticks st2 + 1))\<rparr>
                                (dateNow env (v_ticks st2 + 2))]\<rparr>)
                 else Inr st2))"

text \<open>The end of the loop body: mark, count, and save a checkpoint when the count is a
  multiple of 5.\<close>

definition afterVisit :: "('ast, 'p) env \<Rightarrow> bool \<Rightarrow> 'p \<Rightarrow> 'ast vstate \<Rightarrow> 'ast vstate" where
  "afterVisit env manager smallestScope st =
     (let name = nodeName env (v_ast st) smallestScope;
          st1 = st\<lparr>v_visited := set_add name (v_visited st),
                   v_processedIdentifiers := set_add name (v_processedIdentifiers st),
                   v_processedCount := v_processedCount st + 1\<rparr>
      in if manager \<and> v_processedCount st1 mod 5 = 0 then saveProgress env st1 else st1)"

text \<open>One turn of the \<open>for\<close> loop.  \<open>Inl (e, st)\<close>: \<open>e\<close> was thrown in state \<open>st\<close>.\<close>

definition visitBinding ::
  "('ast, 'p) env \<Rightarrow> bool \<Rightarrow> int \<Rightarrow> 'p \<Rightarrow> 'ast vstate \<Rightarrow> (error \<times> 'ast vstate) + 'ast vstate" where
  "visitBinding env manager contextWindowSize smallestScope st =
     (let name = nodeName env (v_ast st) smallestScope
      in if set_has (v_visited st) name then Inr st
         else if nodeType env (v_ast st) smallestScope \<noteq> ''Identifier''
           then Inl (NoIdentifiersFound, st)
         else
           (let surroundingPath = closestSurroundingContextPath env (v_ast st) smallestScope;
                surroundingCode =
                  scopeToString (pathToString env (v_ast st) surroundingPath)
                    (isProgram env (v_ast st) surroundingPath)
                    (nodeStart env (v_ast st) smallestScope)
                    (nodeEnd env (v_ast st) smallestScope) contextWindowSize;
                st1 = st\<lparr>v_trace := v_trace st @ [Visitor name surroundingCode]\<rparr>
            in case visitor env (v_trace st) name surroundingCode of
                 Inl e \<Rightarrow> Inl (e, st1)
               | Inr renamed \<Rightarrow>
                   (case (if renamed \<noteq> name
                          then applyRename env manager smallestScope renamed st1
                          else Inr st1) of
                      Inl failed \<Rightarrow> Inl failed
                    | Inr st2 \<Rightarrow> Inr (afterVisit env manager smallestScope st2))))"

text \<open>The \<open>for\<close> loop over the paths from the start index on.\<close>

fun visitLoop ::
  "('ast, 'p) env \<Rightarrow> bool \<Rightarrow> int \<Rightarrow> 'p list \<Rightarrow> 'ast vstate \<Rightarrow> (error \<times> 'ast vstate) + 'ast vstate" where
  "visitLoop env manager contextWindowSize [] st = Inr st"
| "visitLoop env manager contextWindowSize (smallestScope # rest) st =
     (case visitBinding env manager contextWindowSize smallestScope st of
        Inl failed \<Rightarrow> Inl failed
      | Inr st' \<Rightarrow> visitLoop env manager contextWindowSize rest st')"

text \<open>The \<open>try\<close> statement: on an error the checkpoint is saved, if there is a manager, and
  the error is thrown again.\<close>

definition visitGuarded ::
  "('ast, 'p) env \<Rightarrow> bool \<Rightarrow> int \<Rightarrow> 'p list \<Rightarrow> 'ast vstate \<Rightarrow> (error \<times> 'ast vstate) + 'ast vstate" where
  "visitGuarded env manager contextWindowSize paths st =
     (case visitLoop env manager contextWindowSize paths st of
        Inl (e, st') \<Rightarrow> Inl (e, if manager then saveProgress env st' else st')
      | Inr st' \<Rightarrow> Inr st')"

text \<open>The loop that applies the renames of the checkpoint to the fresh tree; it is outside
  the \<open>try\<close> statement.\<close>

fun applyExisting ::
  "('ast, 'p) env \<Rightarrow> 'p list \<Rightarrow> (string \<times> string) list \<Rightarrow> 'ast \<Rightarrow> error + 'ast" where
  "applyExisting env scopes [] ast = Inr ast"
| "applyExisting env scopes ((oldName, freshName) # rest) ast =
     (case find (\<lambda>s. nodeName env ast s = oldName) scopes of
        None \<Rightarrow> applyExisting env scopes rest ast
      | Some scopePath \<Rightarrow>
          if oldName \<in> set (scopeBindings env ast scopePath)
          then (case scopeRename env ast scopePath oldName freshName of
                  Inl e \<Rightarrow> Inl e
                | Inr ast' \<Rightarrow> applyExisting env scopes rest ast')
          else applyExisting env scopes rest ast)"

text \<open>The state in which the loop starts, from the loaded checkpoint (if any) and the
  parsed tree.\<close>

definition initialState :: "CheckpointData option \<Rightarrow> 'ast \<Rightarrow> 'ast vstate" where
  "initialState checkpoint ast =
     (case checkpoint of
        None \<Rightarrow>
          \<lparr>v_ast = ast, v_renames = [], v_visited = [], v_processedIdentifiers = [],
           v_renamesMap = [], v_processedCount = 0, v_ticks = 0, v_trace = []\<rparr>
      | Some c \<Rightarrow>
          \<lparr>v_ast = ast, v_renames = set_of (map snd (renames c)),
           v_visited = set_of (processedIdentifiers c),
           v_processedIdentifiers = processedIdentifiers c,
           v_renamesMap = renames c, v_processedCount = currentIdentifierIndex c,
           v_ticks = 0, v_trace = []\<rparr>)"

text \<open>
  From the parsed tree to the end of the \<open>try\<close> statement: the order of the paths, the
  renames of the checkpoint, the loop.  An error of the first two is thrown with the
  state unchanged and nothing saved.
\<close>

definition visitTree ::
  "('ast, 'p) env \<Rightarrow> bool \<Rightarrow> int \<Rightarrow> CheckpointData option \<Rightarrow> 'ast \<Rightarrow> (error \<times> 'ast vstate) + 'ast vstate" where
  "visitTree env manager contextWindowSize checkpoint ast =
     (let st0 = initialState checkpoint ast;
          scopes = findScopes env ast
      in case applyExisting env scopes (v_renamesMap st0) ast of
           Inl e \<Rightarrow> Inl (e, st0)
         | Inr ast' \<Rightarrow>
             visitGuarded env manager contextWindowSize
               (drop (v_processedCount st0) scopes) (st0\<lparr>v_ast := ast'\<rparr>))"

text \<open>
  \<open>visitAllIdentifiersWithCheckpoint\<close>: the result and the calls made.  The progress
  callback and the log lines are left out.  The save interval of the options is bound to
  a variable that nothing reads.
\<close>

definition visitAllIdentifiersWithCheckpoint ::
  "('ast, 'p) env \<Rightarrow> store \<Rightarrow> string \<Rightarrow> int \<Rightarrow> VisitOptions option \<Rightarrow> (error + string) \<times> event list" where
  "visitAllIdentifiersWithCheckpoint env s code contextWindowSize options =
     (let manager = (case options of None \<Rightarrow> False | Some opts \<Rightarrow> checkpointManager opts);
          saveIntervalUnused = (case options of None \<Rightarrow> 10
                                | Some opts \<Rightarrow> (case saveInterval opts of None \<Rightarrow> 10 | Some k \<Rightarrow> k));
          checkpoint = (if manager then loadCheckpoint s else None)
      in case parseAsync env code of
           Inl e \<Rightarrow> (Inl e, [])
         | Inr None \<Rightarrow> (Inl FailedToParse, [])
         | Inr (Some ast) \<Rightarrow>
             (case visitTree env manager contextWindowSize checkpoint ast of
                Inl (e, st) \<Rightarrow> (Inl e, v_trace st)
              | Inr st \<Rightarrow>
                  (case transformFromAstAsync env (v_ast st) of
                     Inl e \<Rightarrow> (Inl e, v_trace st)
                   | Inr None \<Rightarrow> (Inl FailedToStringify, v_trace st)
                   | Inr (Some stringified) \<Rightarrow>
                       (Inr stringified,
                        if manager then v_trace st @ [ClearCheckpoint] else v_trace st))))"

text \<open>The effect of the recorded manager calls on the store.\<close>

fun applyEvent :: "event \<Rightarrow> store \<Rightarrow> store" where
  "applyEvent (Visitor name code) s = s"
| "applyEvent (SavePartialResults label data now) s = savePartialResults label data now s"
| "applyEvent (SaveCheckpoint data) s = saveCheckpoint data s"
| "applyEvent ClearCheckpoint s = clearCheckpoint s"

definition applyTrace :: "event list \<Rightarrow> store \<Rightarrow> store" where
  "applyTrace events s = fold applyEvent events s"

text \<open>The state in which a run of the loop ends, thrown or not.\<close>

definition finalState :: "(error \<times> 'ast vstate) + 'ast vstate \<Rightarrow> 'ast vstate" where
  "finalState r = (case r of Inl (e, st) \<Rightarrow> st | Inr st \<Rightarrow> st)"

definition visitorCalls :: "event list \<Rightarrow> (string \<times> string) list" where
  "visitorCalls events = concat (map (\<lambda>ev. case ev of Visitor n c \<Rightarrow> [(n, c)] | _ \<Rightarrow> []) events)"

definition savedCheckpoints :: "event list \<Rightarrow> CheckpointData list" where
  "savedCheckpoints events = concat (map (\<lambda>ev. case ev of SaveCheckpoint c \<Rightarrow> [c] | _ \<Rightarrow> []) events)"

definition savedShards :: "event list \<Rightarrow> PartialResult list" where
  "savedShards events =
     concat (map (\<lambda>ev. case ev of SavePartialResults l d t \<Rightarrow> [d] | _ \<Rightarrow> []) events)"

subsection \<open>A small instance of the parser library\<close>

text \<open>
  For concrete runs: a tree is the list of the current names of the binding identifiers,
  a path is a number: the binding identifiers are numbered from 0 in traversal order,
  the other nodes (program, functions, declarations) have the numbers after them.  The
  program gives, for each binding identifier, its ancestors from the nearest on, its
  offsets, and the binding identifiers that its scope sees, innermost first; and for a
  node, whether it is the program, the binding identifiers that are its outer binding
  identifiers, the node of its scope, and the offsets of its block.
  Renaming in a scope renames the innermost binding of that name that the scope sees,
  as the library does, and does not throw.  The text of
  every path is the source text, whatever has been renamed, and the text that is
  generated from a tree is the list of its names: the runs below use a window larger
  than the text, and no statement about them depends on either.
\<close>

record program =
  source :: string
  names0 :: "string list"
  ancestors :: "nat list list"
  programNodes :: "nat list"
  outerIds :: "(nat \<times> nat list) list"
  scopeNodes :: "(nat \<times> nat) list"
  blocks :: "(nat \<times> int \<times> int) list"
  spans :: "(int \<times> int) list"
  sees :: "nat list list"

definition smallEnv ::
  "program \<Rightarrow> (event list \<Rightarrow> string \<Rightarrow> string \<Rightarrow> error + string)
     \<Rightarrow> (string list, nat) env" where
  "smallEnv prog oracle =
     \<lparr>parseAsync = (\<lambda>code. if code = source prog then Inr (Some (names0 prog)) else Inr None),
      bindingIdentifiers = (\<lambda>ast. [0 ..< length ast]),
      parents = (\<lambda>ast p. if p < length (ancestors prog) then ancestors prog ! p else []),
      isProgram = (\<lambda>ast p. p \<in> set (programNodes prog)),
      outerBindingIdentifiers = (\<lambda>ast p.
         case map_of (outerIds prog) p of None \<Rightarrow> [] | Some ids \<Rightarrow> map (\<lambda>i. ast ! i) ids),
      scopePathOf = (\<lambda>ast p. case map_of (scopeNodes prog) p of None \<Rightarrow> p | Some q \<Rightarrow> q),
      blockStart = (\<lambda>ast p. case map_of (blocks prog) p of None \<Rightarrow> 0 | Some b \<Rightarrow> fst b),
      blockEnd = (\<lambda>ast p. case map_of (blocks prog) p of None \<Rightarrow> 0 | Some b \<Rightarrow> snd b),
      pathToString = (\<lambda>ast p. source prog),
      nodeName = (\<lambda>ast p. ast ! p),
      nodeType = (\<lambda>ast p. ''Identifier''),
      nodeStart = (\<lambda>ast p. Some (fst (spans prog ! p))),
      nodeEnd = (\<lambda>ast p. Some (snd (spans prog ! p))),
      scopeBindings = (\<lambda>ast p. map (\<lambda>i. ast ! i) (sees prog ! p)),
      scopeRename = (\<lambda>ast p old new.
         case find (\<lambda>i. ast ! i = old) (sees prog ! p) of
           None \<Rightarrow> Inr ast
         | Some i \<Rightarrow> Inr (ast[i := new])),
      toIdentifier = (\<lambda>n. n),
      transformFromAstAsync = (\<lambda>ast. Inr (Some (concat (map (\<lambda>n. n @ '';'') ast)))),
      visitor = oracle,
      dateNow = (\<lambda>n. 1000 + n)\<rparr>"

text \<open>
  The program \<open>function f(a){}function g(a){}\<close>: the binding identifiers \<open>f\<close>, \<open>a\<close>,
  \<open>g\<close>, \<open>a\<close> (0 to 3), the program (4) and the two function declarations (5 and 6).  A
  function declaration has its name as its only outer binding identifier, and the scope
  of its name and of its parameter is the scope of the function.
\<close>

definition twoFunctions :: program where
  "twoFunctions =
     \<lparr>source = ''function f(a){}function g(a){}'',
      names0 = [''f'', ''a'', ''g'', ''a''],
      ancestors = [[5, 4], [5, 4], [6, 4], [6, 4]],
      programNodes = [4],
      outerIds = [(5, [0]), (6, [2])],
      scopeNodes = [(0, 5), (1, 5), (2, 6), (3, 6), (4, 4), (5, 5), (6, 6)],
      blocks = [(4, 0, 30), (5, 0, 15), (6, 15, 30)],
      spans = [(9, 10), (11, 12), (24, 25), (26, 27)],
      sees = [[1, 0, 2], [1, 0, 2], [3, 0, 2], [3, 0, 2]]\<rparr>"

text \<open>An oracle given by a table; a name that is not in the table is answered by itself.\<close>

definition tableOracle :: "(string \<times> string) list \<Rightarrow> event list \<Rightarrow> string \<Rightarrow> string \<Rightarrow> error + string" where
  "tableOracle table history name code =
     (case map_of table name of None \<Rightarrow> Inr name | Some new \<Rightarrow> Inr new)"

text \<open>Names for three terms of the loop body: the name that the collision loop gives,
  the surrounding code handed to the visitor, and the state after the call of the
  visitor is recorded.\<close>

definition safeName :: "('ast, 'p) env \<Rightarrow> 'p \<Rightarrow> string \<Rightarrow> 'ast vstate \<Rightarrow> string" where
  "safeName env p renamed st =
     avoidCollisions (v_renames st) (scopeBindings env (v_ast st) p) (toIdentifier env renamed)"

definition contextOf :: "('ast, 'p) env \<Rightarrow> int \<Rightarrow> 'p \<Rightarrow> 'ast vstate \<Rightarrow> string" where
  "contextOf env W p st =
     scopeToString (pathToString env (v_ast st) (closestSurroundingContextPath env (v_ast st) p))
       (isProgram env (v_ast st) (closestSurroundingContextPath env (v_ast st) p))
       (nodeStart env (v_ast st) p) (nodeEnd env (v_ast st) p) W"

definition called :: "('ast, 'p) env \<Rightarrow> int \<Rightarrow> 'p \<Rightarrow> 'ast vstate \<Rightarrow> 'ast vstate" where
  "called env W p st =
     st\<lparr>v_trace := v_trace st @ [Visitor (nodeName env (v_ast st) p) (contextOf env W p st)]\<rparr>"

section \<open>The pipeline driver (unminifyWithCheckpoint)\<close>

text \<open>
  A plugin is a stage from source text to source text that may throw.  A rename plugin
  carries its configuration; with a checkpoint manager the driver runs its
  checkpoint-aware form, which is the identifier visitor with the manager and the save
  interval of that plugin (5 for the remote models, 10 for the local model), and without
  a manager it runs the plugin itself.  The file name that the local model is asked for
  before its visitor runs is left out.
\<close>

datatype ('ast, 'p) plugin =
    Plain "string \<Rightarrow> error + string"
  | Renamer "string \<Rightarrow> error + string" "('ast, 'p) env" int nat

record UnminifyOptions =
  enableCheckpoint :: "bool option"
  resumeFromCheckpoint :: "bool option"

text \<open>The store, the contents of the extracted files, and the number of clock readings of
  the driver.\<close>

record dstate =
  d_store :: store
  d_files :: "string list"
  d_ticks :: nat

definition runPlugin ::
  "bool \<Rightarrow> ('ast, 'p) plugin \<Rightarrow> store \<Rightarrow> string \<Rightarrow> (error + string) \<times> store" where
  "runPlugin manager plugin s currentCode =
     (case plugin of
        Plain f \<Rightarrow> (f currentCode, s)
      | Renamer f env contextWindowSize interval \<Rightarrow>
          if manager then
            (case visitAllIdentifiersWithCheckpoint env s currentCode contextWindowSize
                    (Some \<lparr>checkpointManager = True, saveInterval = Some interval\<rparr>) of
               (r, events) \<Rightarrow> (r, applyTrace events s))
          else (f currentCode, s))"

text \<open>The wrapper around each plugin: on an error a checkpoint for the current file is
  saved and the error is thrown again.\<close>

definition pluginWithCheckpoint ::
  "bool \<Rightarrow> (nat \<Rightarrow> nat) \<Rightarrow> nat \<Rightarrow> ('ast, 'p) plugin \<Rightarrow> store \<times> nat \<Rightarrow> string
     \<Rightarrow> (error + string) \<times> store \<times> nat" where
  "pluginWithCheckpoint manager clock i plugin st currentCode =
     (case runPlugin manager plugin (fst st) currentCode of
        (Inl e, s') \<Rightarrow>
          if manager
          then (Inl e, saveCheckpoint \<lparr>processedIdentifiers = [], renames = [],
                          currentFileIndex = i, currentIdentifierIndex = 0,
                          timestamp = clock (snd st)\<rparr> s', snd st + 1)
          else (Inl e, s', snd st)
      | (Inr formatted, s') \<Rightarrow> (Inr formatted, s', snd st))"

text \<open>The chain \<open>reduce((p, next) => p.then(next))\<close>: the first error ends it.\<close>

fun runChain ::
  "bool \<Rightarrow> (nat \<Rightarrow> nat) \<Rightarrow> nat \<Rightarrow> ('ast, 'p) plugin list \<Rightarrow> store \<times> nat \<Rightarrow> string
     \<Rightarrow> (error + string) \<times> store \<times> nat" where
  "runChain manager clock i [] st code = (Inr code, st)"
| "runChain manager clock i (plugin # rest) st code =
     (case pluginWithCheckpoint manager clock i plugin st code of
        (Inl e, st') \<Rightarrow> (Inl e, st')
      | (Inr code', st') \<Rightarrow> runChain manager clock i rest st' code')"

text \<open>\<open>code.trim().length === 0\<close>, on the white space of ASCII.\<close>

definition blank :: "string \<Rightarrow> bool" where
  "blank code = (\<forall>c \<in> set code. c \<in> set [CHR '' '', CHR 0x09, CHR 0x0A, CHR 0x0B, CHR 0x0C, CHR 0x0D])"

text \<open>The loop over the extracted files, from the start index on.\<close>

fun processFiles ::
  "bool \<Rightarrow> (nat \<Rightarrow> nat) \<Rightarrow> ('ast, 'p) plugin list \<Rightarrow> nat list \<Rightarrow> dstate \<Rightarrow> (error \<times> dstate) + dstate" where
  "processFiles manager clock plugins [] d = Inr d"
| "processFiles manager clock plugins (i # rest) d =
     (let code = d_files d ! i
      in if blank code then processFiles manager clock plugins rest d
         else (case runChain manager clock i plugins (d_store d, d_ticks d) code of
                 (Inl e, s', t') \<Rightarrow> Inl (e, d\<lparr>d_store := s', d_ticks := t'\<rparr>)
               | (Inr formattedCode, s', t') \<Rightarrow>
                   processFiles manager clock plugins rest
                     (if manager
                      then d\<lparr>d_files := (d_files d)[i := formattedCode],
                             d_store := saveCheckpoint
                               \<lparr>processedIdentifiers = [], renames = [],
                                currentFileIndex = i + 1, currentIdentifierIndex = 0,
                                timestamp = clock t'\<rparr> s',
                             d_ticks := t' + 1\<rparr>
                      else d\<lparr>d_files := (d_files d)[i := formattedCode],
                             d_store := s', d_ticks := t'\<rparr>)))"

text \<open>The file index at which the driver starts.\<close>

definition startFileIndex :: "bool \<Rightarrow> bool \<Rightarrow> store \<Rightarrow> nat" where
  "startFileIndex manager resume s =
     (if manager \<and> resume
      then (case loadCheckpoint s of None \<Rightarrow> 0 | Some checkpoint \<Rightarrow> currentFileIndex checkpoint)
      else 0)"

text \<open>What follows the loop when no file has failed: the checkpoint is cleared, the
  shards are merged, and the merged map is written if it has an entry.\<close>

definition finish :: "bool \<Rightarrow> store \<Rightarrow> store" where
  "finish manager s =
     (if manager
      then (let s1 = clearCheckpoint s; mergedRenames = mergePartialResults s1
            in if length mergedRenames > 0 then s1\<lparr>mappingFile := Some mergedRenames\<rparr> else s1)
      else s)"

text \<open>
  \<open>unminifyWithCheckpoint\<close>.  Reading the bundle and extracting its files is outside the
  model: \<open>extracted\<close> is the error of that part or the contents of the extracted files.
\<close>

definition unminifyWithCheckpoint ::
  "error + string list \<Rightarrow> ('ast, 'p) plugin list \<Rightarrow> UnminifyOptions \<Rightarrow> (nat \<Rightarrow> nat) \<Rightarrow> store
     \<Rightarrow> (error + unit) \<times> dstate" where
  "unminifyWithCheckpoint extracted plugins options clock s =
     (let manager = (case enableCheckpoint options of None \<Rightarrow> True | Some b \<Rightarrow> b);
          resume = (case resumeFromCheckpoint options of None \<Rightarrow> False | Some b \<Rightarrow> b)
      in case extracted of
           Inl e \<Rightarrow> (Inl e, \<lparr>d_store = s, d_files = [], d_ticks = 0\<rparr>)
         | Inr files \<Rightarrow>
             (case processFiles manager clock plugins
                     [startFileIndex manager resume s ..< length files]
                     \<lparr>d_store = s, d_files = files, d_ticks = 0\<rparr> of
                Inl (e, d) \<Rightarrow> (Inl e, d)
              | Inr d \<Rightarrow> (Inr (), d\<lparr>d_store := finish manager (d_store d)\<rparr>)))"

text \<open>The program \<open>var a,b,c,d,e;\<close>: five bindings of the program scope (0 to 4), the
  program (5), the declaration (6) and its five declarators (7 to 11).\<close>

definition fiveVars :: program where
  "fiveVars =
     \<lparr>source = ''var a,b,c,d,e;'',
      names0 = [''a'', ''b'', ''c'', ''d'', ''e''],
      ancestors = [[7, 6, 5], [8, 6, 5], [9, 6, 5], [10, 6, 5], [11, 6, 5]],
      programNodes = [5],
      outerIds = [(6, [0, 1, 2, 3, 4]), (7, [0]), (8, [1]), (9, [2]), (10, [3]), (11, [4])],
      scopeNodes = [(0, 5), (1, 5), (2, 5), (3, 5), (4, 5), (5, 5), (6, 5), (7, 5), (8, 5),
                    (9, 5), (10, 5), (11, 5)],
      blocks = [(5, 0, 14), (6, 0, 13), (7, 4, 5), (8, 6, 7), (9, 8, 9), (10, 10, 11),
                (11, 12, 13)],
      spans = [(4, 5), (6, 7), (8, 9), (10, 11), (12, 13)],
      sees = [[0, 1, 2, 3, 4], [0, 1, 2, 3, 4], [0, 1, 2, 3, 4], [0, 1, 2, 3, 4],
              [0, 1, 2, 3, 4]]\<rparr>"

definition fineEvent :: "bool \<Rightarrow> string list \<Rightarrow> event \<Rightarrow> bool" where
  "fineEvent manager seen ev =
     (case ev of
        Visitor n c \<Rightarrow> n \<notin> set seen
      | SavePartialResults l d t \<Rightarrow> manager \<and> pr_renames d = None
      | SaveCheckpoint c \<Rightarrow> manager \<and> currentFileIndex c = 0
      | ClearCheckpoint \<Rightarrow> False)"

text \<open>
  How a later state of the loop relates to an earlier one: the visited set and the keys
  of the rename map only grow, the record of calls is extended by fine events, and an
  entry of the rename map is kept unless its key was handed to the visitor again.
\<close>

definition advances :: "bool \<Rightarrow> 'ast vstate \<Rightarrow> 'ast vstate \<Rightarrow> bool" where
  "advances manager st st' =
     (set (v_visited st) \<subseteq> set (v_visited st') \<and>
      fst ` set (v_renamesMap st) \<subseteq> fst ` set (v_renamesMap st') \<and>
      (\<exists>evs. v_trace st' = v_trace st @ evs \<and>
             (\<forall>ev \<in> set evs. fineEvent manager (v_visited st) ev) \<and>
             (\<forall>kv \<in> set (v_renamesMap st).
                 kv \<in> set (v_renamesMap st') \<or> fst kv \<in> fst ` set (visitorCalls evs))))"


definition withManager :: "nat \<Rightarrow> VisitOptions option" where
  "withManager k = Some \<lparr>checkpointManager = True, saveInterval = Some k\<rparr>"

definition firstRunOracle :: "event list \<Rightarrow> string \<Rightarrow> string \<Rightarrow> error + string" where
  "firstRunOracle history name code =
     (if visitorCalls history = [] then Inr ''x'' else Inl (Thrown ''timeout''))"

definition interrupted :: CheckpointData where
  "interrupted =
     \<lparr>processedIdentifiers = [''x''], renames = [(''a'', ''x'')], currentFileIndex = 0,
      currentIdentifierIndex = 1, timestamp = 1003\<rparr>"

definition firstRunEnv :: "(string list, nat) env" where
  "firstRunEnv = smallEnv twoFunctions firstRunOracle"

definition resumeEnv :: "(string list, nat) env" where
  "resumeEnv = smallEnv twoFunctions (tableOracle [(''a'', ''y'')])"

definition fiveEnv :: "(string list, nat) env" where
  "fiveEnv = smallEnv fiveVars (tableOracle [(''b'', ''y'')])"

definition renameEnv :: "(string list, nat) env" where
  "renameEnv = smallEnv twoFunctions (tableOracle [(''a'', ''x'')])"



definition renameRun :: "(error + string) \<times> event list" where
  "renameRun =
     visitAllIdentifiersWithCheckpoint renameEnv emptyStore (source twoFunctions) 1000
       (withManager 5)"

definition noopEnv :: "(string list, nat) env" where
  "noopEnv = smallEnv fiveVars (tableOracle [])"

definition resumedState :: "string list vstate" where
  "resumedState = (initialState (Some interrupted) (names0 twoFunctions))
                    \<lparr>v_ast := [''f'', ''x'', ''g'', ''a'']\<rparr>"

definition defaultOptions :: UnminifyOptions where
  "defaultOptions = \<lparr>enableCheckpoint = None, resumeFromCheckpoint = None\<rparr>"

definition driverClock :: "nat \<Rightarrow> nat" where
  "driverClock n = 2000 + n"

text \<open>A store that holds one shard in the format of the tests of the store.\<close>

definition testShard :: PartialResult where
  "testShard = \<lparr>pr_renames = Some [(''q'', ''queue'')], pr_processedCount = None,
                 originalName = None, newName = None, pr_timestamp = None\<rparr>"

definition testStore :: store where
  "testStore = \<lparr>checkpointFile = None, partialFiles = [((''file1.js'', 7), testShard)],
                 mappingFile = None\<rparr>"

definition driverRun :: "(error + unit) \<times> dstate" where
  "driverRun = unminifyWithCheckpoint (Inr [source twoFunctions])
                 [Renamer Inr renameEnv 1000 5] defaultOptions driverClock emptyStore"

definition driverRunWithShard :: "(error + unit) \<times> dstate" where
  "driverRunWithShard = unminifyWithCheckpoint (Inr [source twoFunctions])
                 [Renamer Inr renameEnv 1000 5] defaultOptions driverClock testStore"

text \<open>The shard files of a store only become more and the mapping file stays, whatever the
  plugins do through the manager.\<close>

definition storeGrows :: "store \<Rightarrow> store \<Rightarrow> bool" where
  "storeGrows s s' =
     (fst ` set (partialFiles s) \<subseteq> fst ` set (partialFiles s') \<and> mappingFile s' = mappingFile s)"

definition finalDState :: "(error \<times> dstate) + dstate \<Rightarrow> dstate" where
  "finalDState r = (case r of Inl (e, d) \<Rightarrow> d | Inr d \<Rightarrow> d)"

section \<open>Merging shards\<close>

text \<open>All pairs of the shards that carry a \<open>renames\<close> field, in enumeration order.\<close>

definition shardPairs :: "PartialResult list \<Rightarrow> (string \<times> string) list" where
  "shardPairs rs = concat (map (\<lambda>r. case pr_renames r of None \<Rightarrow> [] | Some es \<Rightarrow> es) rs)"

lemma map_of_mergeEntries:
  "map_of (mergeEntries merged es) = map_of (rev es @ merged)"
proof (induction es arbitrary: merged)
  case Nil
  show ?case by simp
next
  case (Cons e es)
  obtain k v where e: "e = (k, v)" by (cases e)
  have "map_of (mergeEntries merged (e # es)) = map_of (rev es @ map_set k v merged)"
    using Cons.IH [of "map_set k v merged"] by (simp add: e)
  also have "\<dots> = (map_of merged)(k \<mapsto> v) ++ map_of (rev es)"
    by (simp add: map_set_def update_conv')
  also have "\<dots> = map_of (rev (e # es) @ merged)"
    by (simp add: e)
  finally show ?case .
qed

lemma map_of_mergeResults:
  "map_of (mergeResults merged rs) = map_of (rev (shardPairs rs) @ merged)"
proof (induction rs arbitrary: merged)
  case Nil
  show ?case by (simp add: shardPairs_def)
next
  case (Cons r rs)
  show ?case
  proof (cases "pr_renames r")
    case None
    then show ?thesis using Cons.IH [of merged] by (simp add: shardPairs_def)
  next
    case (Some es)
    then show ?thesis
      using Cons.IH [of "mergeEntries merged es"]
      by (simp add: shardPairs_def map_of_mergeEntries)
  qed
qed

text \<open>
  The merged map answers a key with the value of the last pair that has this key, among
  the pairs of all shards in enumeration order: the later shard wins.
\<close>

lemma mergePartialResults_last_wins:
  "map_of (mergePartialResults s) = map_of (rev (shardPairs (loadPartialResults s)))"
  by (simp add: mergePartialResults_def map_of_mergeResults)

lemma mergeResults_no_renames:
  "\<forall>r \<in> set rs. pr_renames r = None \<Longrightarrow> mergeResults merged rs = merged"
  by (induction rs arbitrary: merged) simp_all

section \<open>Context windows\<close>










section \<open>Visitation order\<close>



lemma sorted_neg_snd:
  "sorted (map (\<lambda>p. - snd p) (xs :: ('p \<times> int) list)) = sorted_wrt (\<lambda>a b. snd b \<le> snd a) xs"
  by (induction xs) auto











section \<open>Collisions\<close>

lemma avoidCollisions_minimal:
  "\<exists>k. avoidCollisions taken bound s = replicate k CHR ''_'' @ s \<and>
       avoidCollisions taken bound s \<notin> set taken \<union> set bound \<and>
       (\<forall>j<k. replicate j CHR ''_'' @ s \<in> set taken \<union> set bound)"
proof (induction taken bound s rule: avoidCollisions.induct)
  case (1 taken bound s)
  show ?case
  proof (cases "set_has taken s \<or> s \<in> set bound")
    case False
    then have "avoidCollisions taken bound s = s"
      by (subst avoidCollisions.simps) simp
    with False show ?thesis
      by (intro exI [of _ 0]) (simp add: set_has_def)
  next
    case True
    then have unf: "avoidCollisions taken bound s = avoidCollisions taken bound (CHR ''_'' # s)"
      by (subst avoidCollisions.simps) simp
    from "1.IH" [OF True] obtain k where
      k: "avoidCollisions taken bound (CHR ''_'' # s) = replicate k CHR ''_'' @ CHR ''_'' # s"
         "avoidCollisions taken bound (CHR ''_'' # s) \<notin> set taken \<union> set bound"
         "\<forall>j<k. replicate j CHR ''_'' @ CHR ''_'' # s \<in> set taken \<union> set bound"
      by blast
    have shift: "replicate j CHR ''_'' @ CHR ''_'' # s = replicate (Suc j) CHR ''_'' @ s" for j
      by (simp add: replicate_app_Cons_same)
    have "\<forall>j<Suc k. replicate j CHR ''_'' @ s \<in> set taken \<union> set bound"
    proof (intro allI impI)
      fix j assume "j < Suc k"
      show "replicate j CHR ''_'' @ s \<in> set taken \<union> set bound"
      proof (cases j)
        case 0
        with True show ?thesis by (auto simp: set_has_def)
      next
        case (Suc i)
        with \<open>j < Suc k\<close> have "i < k" by simp
        with k(3) have "replicate i CHR ''_'' @ CHR ''_'' # s \<in> set taken \<union> set bound" by blast
        then show ?thesis unfolding shift Suc .
      qed
    qed
    with k(1,2) show ?thesis
      unfolding unf shift by (intro exI [of _ "Suc k"]) simp
  qed
qed

section \<open>Steps of the visitor\<close>

lemma applyRename_kept:
  assumes "st' = finalState (applyRename env manager p renamed st)"
  shows "v_visited st' = v_visited st"
    and "v_processedIdentifiers st' = v_processedIdentifiers st"
    and "v_processedCount st' = v_processedCount st"
    and "v_renamesMap st' =
           map_set (nodeName env (v_ast st) p) (safeName env p renamed st) (v_renamesMap st)"
    and "v_renames st' = set_add (safeName env p renamed st) (v_renames st)"
  using assms
  by (simp_all add: applyRename_def finalState_def safeName_def Let_def split: sum.splits)

lemma applyRename_trace:
  "\<exists>evs. v_trace (finalState (applyRename env manager p renamed st)) = v_trace st @ evs \<and>
         (\<forall>ev\<in>set evs. \<exists>l d t. ev = SavePartialResults l d t \<and> manager \<and> pr_renames d = None)"
  by (simp add: applyRename_def finalState_def Let_def split: sum.splits)

lemma afterVisit_kept:
  "v_renamesMap (afterVisit env manager p st) = v_renamesMap st"
  "v_renames (afterVisit env manager p st) = v_renames st"
  "v_ast (afterVisit env manager p st) = v_ast st"
  "v_visited (afterVisit env manager p st) = set_add (nodeName env (v_ast st) p) (v_visited st)"
  "v_processedIdentifiers (afterVisit env manager p st) =
     set_add (nodeName env (v_ast st) p) (v_processedIdentifiers st)"
  "v_processedCount (afterVisit env manager p st) = v_processedCount st + 1"
  by (simp_all add: afterVisit_def saveProgress_def Let_def)

lemma afterVisit_trace:
  "v_trace (afterVisit env manager p st) =
     v_trace st @
       (if manager \<and> (v_processedCount st + 1) mod 5 = 0
        then [SaveCheckpoint
                \<lparr>processedIdentifiers = set_add (nodeName env (v_ast st) p) (v_processedIdentifiers st),
                 renames = v_renamesMap st, currentFileIndex = 0,
                 currentIdentifierIndex = v_processedCount st + 1,
                 timestamp = dateNow env (v_ticks st)\<rparr>]
        else [])"
  by (simp add: afterVisit_def saveProgress_def Let_def)


lemma called_kept [simp]:
  "v_ast (called env W p st) = v_ast st"
  "v_visited (called env W p st) = v_visited st"
  "v_processedIdentifiers (called env W p st) = v_processedIdentifiers st"
  "v_processedCount (called env W p st) = v_processedCount st"
  "v_renamesMap (called env W p st) = v_renamesMap st"
  "v_renames (called env W p st) = v_renames st"
  "v_ticks (called env W p st) = v_ticks st"
  "v_trace (called env W p st) =
     v_trace st @ [Visitor (nodeName env (v_ast st) p) (contextOf env W p st)]"
  by (simp_all add: called_def)

lemma visitBinding_skip:
  assumes "set_has (v_visited st) (nodeName env (v_ast st) p)"
  shows "visitBinding env manager W p st = Inr st"
  using assms by (simp add: visitBinding_def)

lemma visitBinding_notIdentifier:
  assumes "\<not> set_has (v_visited st) (nodeName env (v_ast st) p)"
    and "nodeType env (v_ast st) p \<noteq> ''Identifier''"
  shows "visitBinding env manager W p st = Inl (NoIdentifiersFound, st)"
  using assms by (simp add: visitBinding_def)

lemma visitBinding_throws:
  assumes "\<not> set_has (v_visited st) (nodeName env (v_ast st) p)"
    and "nodeType env (v_ast st) p = ''Identifier''"
    and "visitor env (v_trace st) (nodeName env (v_ast st) p) (contextOf env W p st) = Inl e"
  shows "visitBinding env manager W p st = Inl (e, called env W p st)"
  using assms by (simp add: visitBinding_def contextOf_def called_def Let_def)

lemma visitBinding_unchanged:
  assumes "\<not> set_has (v_visited st) (nodeName env (v_ast st) p)"
    and "nodeType env (v_ast st) p = ''Identifier''"
    and "visitor env (v_trace st) (nodeName env (v_ast st) p) (contextOf env W p st)
           = Inr (nodeName env (v_ast st) p)"
  shows "visitBinding env manager W p st = Inr (afterVisit env manager p (called env W p st))"
  using assms by (simp add: visitBinding_def contextOf_def called_def Let_def)

lemma visitBinding_renamed:
  assumes "\<not> set_has (v_visited st) (nodeName env (v_ast st) p)"
    and "nodeType env (v_ast st) p = ''Identifier''"
    and "visitor env (v_trace st) (nodeName env (v_ast st) p) (contextOf env W p st) = Inr renamed"
    and "renamed \<noteq> nodeName env (v_ast st) p"
  shows "visitBinding env manager W p st =
           (case applyRename env manager p renamed (called env W p st) of
              Inl failed \<Rightarrow> Inl failed
            | Inr st2 \<Rightarrow> Inr (afterVisit env manager p st2))"
  using assms by (simp add: visitBinding_def contextOf_def called_def Let_def)

lemma visitBinding_cases [case_names skip notIdentifier throws unchanged renamed]:
  obtains
    (skip) "set_has (v_visited st) (nodeName env (v_ast st) p)"
           "visitBinding env manager W p st = Inr st"
  | (notIdentifier) "visitBinding env manager W p st = Inl (NoIdentifiersFound, st)"
  | (throws) e where
      "\<not> set_has (v_visited st) (nodeName env (v_ast st) p)"
      "visitor env (v_trace st) (nodeName env (v_ast st) p) (contextOf env W p st) = Inl e"
      "visitBinding env manager W p st = Inl (e, called env W p st)"
  | (unchanged)
      "\<not> set_has (v_visited st) (nodeName env (v_ast st) p)"
      "visitor env (v_trace st) (nodeName env (v_ast st) p) (contextOf env W p st)
         = Inr (nodeName env (v_ast st) p)"
      "visitBinding env manager W p st = Inr (afterVisit env manager p (called env W p st))"
  | (renamed) renamed where
      "\<not> set_has (v_visited st) (nodeName env (v_ast st) p)"
      "visitor env (v_trace st) (nodeName env (v_ast st) p) (contextOf env W p st) = Inr renamed"
      "renamed \<noteq> nodeName env (v_ast st) p"
      "visitBinding env manager W p st =
           (case applyRename env manager p renamed (called env W p st) of
              Inl failed \<Rightarrow> Inl failed
            | Inr st2 \<Rightarrow> Inr (afterVisit env manager p st2))"
proof (cases "set_has (v_visited st) (nodeName env (v_ast st) p)")
  case True
  then show ?thesis by (intro skip) (simp_all add: visitBinding_skip)
next
  case nv: False
  show ?thesis
  proof (cases "nodeType env (v_ast st) p = ''Identifier''")
    case False
    then show ?thesis by (intro notIdentifier) (simp add: visitBinding_notIdentifier [OF nv])
  next
    case id: True
    show ?thesis
    proof (cases "visitor env (v_trace st) (nodeName env (v_ast st) p) (contextOf env W p st)")
      case (Inl e)
      then show ?thesis
        by (intro throws [of e]) (simp_all add: visitBinding_throws [OF nv id] nv)
    next
      case (Inr r)
      show ?thesis
      proof (cases "r = nodeName env (v_ast st) p")
        case True
        then show ?thesis using Inr
          by (intro unchanged) (simp_all add: visitBinding_unchanged [OF nv id] nv)
      next
        case False
        then show ?thesis using Inr
          by (intro renamed [of r]) (simp_all add: visitBinding_renamed [OF nv id Inr] nv)
      qed
    qed
  qed
qed

text \<open>
  What one turn of the loop may add to the record of calls: a call of the visitor with a
  name that was not yet visited, a shard without a \<open>renames\<close> field, a checkpoint with the
  file index 0; the latter two only with a manager.
\<close>

section \<open>Invariants of the visitor loop\<close>

lemma visitorCalls_simps [simp]:
  "visitorCalls [] = []"
  "visitorCalls (Visitor n c # evs) = (n, c) # visitorCalls evs"
  "visitorCalls (SavePartialResults l d t # evs) = visitorCalls evs"
  "visitorCalls (SaveCheckpoint cp # evs) = visitorCalls evs"
  "visitorCalls (ClearCheckpoint # evs) = visitorCalls evs"
  "visitorCalls (evs @ evs') = visitorCalls evs @ visitorCalls evs'"
  by (simp_all add: visitorCalls_def)

lemma fineEvent_fewer:
  "fineEvent manager seen' ev \<Longrightarrow> set seen \<subseteq> set seen' \<Longrightarrow> fineEvent manager seen ev"
  by (auto simp: fineEvent_def split: event.splits)

lemma update_keeps_others:
  "kv \<in> set m \<Longrightarrow> fst kv \<noteq> k \<Longrightarrow> kv \<in> set (AList.update k v m)"
  by (induction m) auto

lemma advances_refl: "advances manager st st"
  by (simp add: advances_def)

lemma advances_trans:
  assumes "advances manager a b" and "advances manager b c"
  shows "advances manager a c"
proof -
  from assms(1) obtain evs1 where 1:
    "set (v_visited a) \<subseteq> set (v_visited b)"
    "fst ` set (v_renamesMap a) \<subseteq> fst ` set (v_renamesMap b)"
    "v_trace b = v_trace a @ evs1"
    "\<forall>ev \<in> set evs1. fineEvent manager (v_visited a) ev"
    "\<forall>kv \<in> set (v_renamesMap a).
        kv \<in> set (v_renamesMap b) \<or> fst kv \<in> fst ` set (visitorCalls evs1)"
    unfolding advances_def by blast
  from assms(2) obtain evs2 where 2:
    "set (v_visited b) \<subseteq> set (v_visited c)"
    "fst ` set (v_renamesMap b) \<subseteq> fst ` set (v_renamesMap c)"
    "v_trace c = v_trace b @ evs2"
    "\<forall>ev \<in> set evs2. fineEvent manager (v_visited b) ev"
    "\<forall>kv \<in> set (v_renamesMap b).
        kv \<in> set (v_renamesMap c) \<or> fst kv \<in> fst ` set (visitorCalls evs2)"
    unfolding advances_def by blast
  have t: "v_trace c = v_trace a @ (evs1 @ evs2)"
    using 1(3) 2(3) by simp
  have f: "\<forall>ev \<in> set (evs1 @ evs2). fineEvent manager (v_visited a) ev"
    using 1(4) 2(4) fineEvent_fewer [OF _ 1(1)] by auto
  have k: "\<forall>kv \<in> set (v_renamesMap a).
        kv \<in> set (v_renamesMap c) \<or> fst kv \<in> fst ` set (visitorCalls (evs1 @ evs2))"
  proof
    fix kv assume "kv \<in> set (v_renamesMap a)"
    with 1(5) consider "kv \<in> set (v_renamesMap b)" | "fst kv \<in> fst ` set (visitorCalls evs1)"
      by blast
    then show "kv \<in> set (v_renamesMap c) \<or> fst kv \<in> fst ` set (visitorCalls (evs1 @ evs2))"
    proof cases
      case 1
      with 2(5) show ?thesis by auto
    next
      case 2
      then show ?thesis by auto
    qed
  qed
  show ?thesis
    unfolding advances_def using 1(1,2) 2(1,2) t f k by blast
qed

lemma advances_afterVisit: "advances manager st (afterVisit env manager p st)"
  unfolding advances_def
  by (auto simp: afterVisit_kept afterVisit_trace set_add_def fineEvent_def)

lemma advances_saveProgress: "manager \<Longrightarrow> advances manager st (saveProgress env st)"
  unfolding advances_def by (simp add: saveProgress_def fineEvent_def)

lemma advances_called:
  "\<not> set_has (v_visited st) (nodeName env (v_ast st) p) \<Longrightarrow>
     advances manager st (called env W p st)"
  unfolding advances_def by (simp add: fineEvent_def set_has_def)

lemma advances_applyRename:
  assumes "\<not> set_has (v_visited st) (nodeName env (v_ast st) p)"
  shows "advances manager st (finalState (applyRename env manager p renamed (called env W p st)))"
proof -
  let ?c = "called env W p st"
  let ?x = "finalState (applyRename env manager p renamed ?c)"
  let ?name = "nodeName env (v_ast st) p"
  note k = applyRename_kept [OF refl, of env manager p renamed ?c]
  obtain evs where evs: "v_trace ?x = v_trace ?c @ evs"
    "\<forall>ev\<in>set evs. \<exists>l d t. ev = SavePartialResults l d t \<and> manager \<and> pr_renames d = None"
    using applyRename_trace [of env manager p renamed ?c] by blast
  have m: "v_renamesMap ?x = AList.update ?name (safeName env p renamed ?c) (v_renamesMap st)"
    using k(4) by (simp add: map_set_def)
  have t: "v_trace ?x = v_trace st @ (Visitor ?name (contextOf env W p st) # evs)"
    using evs(1) by simp
  have f: "\<forall>ev \<in> set (Visitor ?name (contextOf env W p st) # evs). fineEvent manager (v_visited st) ev"
    using evs(2) assms by (auto simp: fineEvent_def set_has_def)
  have e: "\<forall>kv \<in> set (v_renamesMap st). kv \<in> set (v_renamesMap ?x) \<or>
      fst kv \<in> fst ` set (visitorCalls (Visitor ?name (contextOf env W p st) # evs))"
    unfolding m using update_keeps_others by fastforce
  have d: "fst ` set (v_renamesMap st) \<subseteq> fst ` set (v_renamesMap ?x)"
    unfolding m by (auto simp: dom_update)
  have v: "set (v_visited st) \<subseteq> set (v_visited ?x)"
    using k(1) by simp
  show ?thesis
    unfolding advances_def using v d t f e by blast
qed

lemma advances_visitBinding:
  "advances manager st (finalState (visitBinding env manager W p st))"
proof (cases rule: visitBinding_cases [of st env p manager W])
  case skip
  then show ?thesis by (simp add: finalState_def advances_refl)
next
  case notIdentifier
  then show ?thesis by (simp add: finalState_def advances_refl)
next
  case (throws e)
  then show ?thesis by (simp add: finalState_def advances_called)
next
  case unchanged
  then show ?thesis
    using advances_trans [OF advances_called advances_afterVisit]
    by (simp add: finalState_def)
next
  case (renamed r)
  note a = advances_applyRename [OF renamed(1), of manager renamed W for renamed]
  show ?thesis
  proof (cases "applyRename env manager p r (called env W p st)")
    case (Inl failed)
    then show ?thesis using a [of r] renamed(4) by (simp add: finalState_def split: prod.splits)
  next
    case (Inr st2)
    then have "advances manager st st2" using a [of r] by (simp add: finalState_def)
    from advances_trans [OF this advances_afterVisit]
    show ?thesis using renamed(4) Inr by (simp add: finalState_def)
  qed
qed

lemma advances_visitLoop:
  "advances manager st (finalState (visitLoop env manager W paths st))"
proof (induction paths arbitrary: st)
  case Nil
  show ?case by (simp add: finalState_def advances_refl)
next
  case (Cons p paths)
  show ?case
  proof (cases "visitBinding env manager W p st")
    case (Inl failed)
    then show ?thesis using advances_visitBinding [of manager st env W p] by simp
  next
    case (Inr st')
    then have "advances manager st st'"
      using advances_visitBinding [of manager st env W p] by (simp add: finalState_def)
    from advances_trans [OF this Cons.IH [of st']] show ?thesis using Inr by simp
  qed
qed

lemma advances_visitGuarded:
  "advances manager st (finalState (visitGuarded env manager W paths st))"
proof (cases "visitLoop env manager W paths st")
  case (Inl failed)
  obtain e st' where f: "failed = (e, st')" by (cases failed)
  have a: "advances manager st st'"
    using advances_visitLoop [of manager st env W paths] Inl f by (simp add: finalState_def)
  show ?thesis
  proof (cases manager)
    case True
    from advances_trans [OF a advances_saveProgress [OF True]]
    show ?thesis using Inl f True by (simp add: visitGuarded_def finalState_def)
  next
    case False
    then show ?thesis using a Inl f by (simp add: visitGuarded_def finalState_def)
  qed
next
  case (Inr st')
  then show ?thesis
    using advances_visitLoop [of manager st env W paths]
    by (simp add: visitGuarded_def finalState_def)
qed

lemma set_set_of: "set (set_of xs) = set xs"
proof -
  have "set (fold set_add xs acc) = set xs \<union> set acc" for acc :: "'a list"
    by (induction xs arbitrary: acc) (auto simp: set_add_def)
  then show ?thesis by (simp add: set_of_def)
qed

lemma advances_visitTree:
  "advances manager (initialState checkpoint ast)
     (finalState (visitTree env manager W checkpoint ast))"
proof (cases "applyExisting env (findScopes env ast)
                (v_renamesMap (initialState checkpoint ast)) ast")
  case (Inl e)
  then show ?thesis by (simp add: visitTree_def Let_def finalState_def advances_refl)
next
  case (Inr ast')
  let ?st = "(initialState checkpoint ast)\<lparr>v_ast := ast'\<rparr>"
  have "advances manager ?st (finalState (visitGuarded env manager W
          (drop (v_processedCount (initialState checkpoint ast)) (findScopes env ast)) ?st))"
    by (rule advances_visitGuarded)
  then have "advances manager (initialState checkpoint ast) (finalState (visitGuarded env manager W
          (drop (v_processedCount (initialState checkpoint ast)) (findScopes env ast)) ?st))"
    by (simp add: advances_def)
  then show ?thesis using Inr by (simp add: visitTree_def Let_def)
qed

text \<open>An oracle that answers its first call with \<open>x\<close> and fails at every later call.\<close>

text \<open>The checkpoint that the run with \<open>firstRunOracle\<close> on \<open>twoFunctions\<close> leaves.\<close>

section \<open>Resuming from a checkpoint\<close>

lemma fine_calls_unseen:
  "\<forall>ev \<in> set evs. fineEvent manager seen ev \<Longrightarrow>
     \<forall>nc \<in> set (visitorCalls evs). fst nc \<notin> set seen"
  by (induction evs) (auto simp: fineEvent_def split: event.splits)

lemma initialState_Some [simp]:
  "v_trace (initialState (Some cp) ast) = []"
  "v_renamesMap (initialState (Some cp) ast) = renames cp"
  "set (v_visited (initialState (Some cp) ast)) = set (processedIdentifiers cp)"
  by (simp_all add: initialState_def set_set_of)

lemma firstRun_leaves_interrupted:
  "visitAllIdentifiersWithCheckpoint firstRunEnv emptyStore (source twoFunctions) 1000
     (withManager 5)
   = (Inl (Thrown ''timeout''),
      [Visitor ''a'' (source twoFunctions),
       SavePartialResults ''rename_1000_x'' (renameShard ''x'' ''x'' 1001) 1002,
       Visitor ''a'' (source twoFunctions),
       SaveCheckpoint interrupted])"
  by code_simp

text \<open>
  C2, as stated, fails in its second half.  The program
  \<open>function f(a){}function g(a){}\<close> binds \<open>a\<close> in two scopes.  The checkpoint
  \<open>interrupted\<close> records that the first \<open>a\<close> was renamed to \<open>x\<close>; the resumed run visits
  the second \<open>a\<close>, the oracle proposes \<open>y\<close>, and the entry of \<open>a\<close> in the rename map is
  overwritten: the final map is not a superset of the map of the checkpoint.
\<close>

theorem C2_checkpoint_entry_overwritten:
  "\<not> set (renames interrupted)
       \<subseteq> set (v_renamesMap (finalState
               (visitTree resumeEnv True 1000 (Some interrupted) (names0 twoFunctions))))"
  by code_simp

text \<open>
  C2, amended.  In a run resumed from a checkpoint, the visitor is never called with a
  name of the processed set of the checkpoint; every key of the rename map of the
  checkpoint is a key of the rename map at the end of the run; and every entry of the
  checkpoint whose key is not handed to the visitor during the run is in the rename map
  at the end of the run, with its value.
\<close>

theorem C2_resumed_run:
  "(\<forall>nc \<in> set (visitorCalls (v_trace (finalState (visitTree env manager W (Some cp) ast)))).
       fst nc \<notin> set (processedIdentifiers cp)) \<and>
   fst ` set (renames cp)
     \<subseteq> fst ` set (v_renamesMap (finalState (visitTree env manager W (Some cp) ast))) \<and>
   (\<forall>kv \<in> set (renames cp).
       fst kv \<notin> fst ` set (visitorCalls (v_trace (finalState (visitTree env manager W (Some cp) ast))))
       \<longrightarrow> kv \<in> set (v_renamesMap (finalState (visitTree env manager W (Some cp) ast))))"
proof -
  let ?st = "finalState (visitTree env manager W (Some cp) ast)"
  from advances_visitTree [of manager "Some cp" ast env W]
  obtain evs where a:
    "fst ` set (renames cp) \<subseteq> fst ` set (v_renamesMap ?st)"
    "v_trace ?st = evs"
    "\<forall>ev \<in> set evs. fineEvent manager (v_visited (initialState (Some cp) ast)) ev"
    "\<forall>kv \<in> set (renames cp).
        kv \<in> set (v_renamesMap ?st) \<or> fst kv \<in> fst ` set (visitorCalls evs)"
    unfolding advances_def by auto
  have "\<forall>nc \<in> set (visitorCalls evs). fst nc \<notin> set (processedIdentifiers cp)"
    using fine_calls_unseen [OF a(3)] by simp
  then show ?thesis
    using a(1) a(4) unfolding a(2) by blast
qed

theorem C2_resumed_run_witness:
  "visitorCalls (v_trace (finalState
       (visitTree fiveEnv True 1000 (Some interrupted) (names0 fiveVars))))
     = [(''b'', source fiveVars), (''c'', source fiveVars), (''d'', source fiveVars),
        (''e'', source fiveVars)] \<and>
   (''a'', ''x'') \<in> set (v_renamesMap (finalState
       (visitTree fiveEnv True 1000 (Some interrupted) (names0 fiveVars))))"
proof -
  have calls: "visitorCalls (v_trace (finalState
       (visitTree fiveEnv True 1000 (Some interrupted) (names0 fiveVars))))
     = [(''b'', source fiveVars), (''c'', source fiveVars), (''d'', source fiveVars),
        (''e'', source fiveVars)]"
    by code_simp
  have entry: "(''a'', ''x'') \<in> set (renames interrupted)"
    by (simp add: interrupted_def)
  show ?thesis
    using C2_resumed_run [of fiveEnv True 1000 interrupted "names0 fiveVars"] entry
    unfolding calls by auto
qed

section \<open>What the visitor hands to the checkpoint manager\<close>

lemma initialState_trace [simp]: "v_trace (initialState checkpoint ast) = []"
  by (cases checkpoint) (simp_all add: initialState_def)

lemma visitTree_trace_fine:
  "\<forall>ev \<in> set (v_trace (finalState (visitTree env manager W checkpoint ast))).
      fineEvent manager (v_visited (initialState checkpoint ast)) ev"
  using advances_visitTree [of manager checkpoint ast env W]
  unfolding advances_def by auto

lemma visitAll_trace_cases:
  "snd (visitAllIdentifiersWithCheckpoint env s code W options) = [] \<or>
   (\<exists>manager checkpoint ast.
      snd (visitAllIdentifiersWithCheckpoint env s code W options)
        = v_trace (finalState (visitTree env manager W checkpoint ast)) \<or>
      snd (visitAllIdentifiersWithCheckpoint env s code W options)
        = v_trace (finalState (visitTree env manager W checkpoint ast)) @ [ClearCheckpoint])"
proof (cases "parseAsync env code")
  case (Inl e)
  then show ?thesis by (simp add: visitAllIdentifiersWithCheckpoint_def)
next
  case (Inr parsed)
  show ?thesis
  proof (cases parsed)
    case None
    then show ?thesis using Inr by (simp add: visitAllIdentifiersWithCheckpoint_def)
  next
    case (Some ast)
    define manager where
      "manager = (case options of None \<Rightarrow> False | Some opts \<Rightarrow> checkpointManager opts)"
    define checkpoint where "checkpoint = (if manager then loadCheckpoint s else None)"
    have "snd (visitAllIdentifiersWithCheckpoint env s code W options)
            = v_trace (finalState (visitTree env manager W checkpoint ast)) \<or>
          snd (visitAllIdentifiersWithCheckpoint env s code W options)
            = v_trace (finalState (visitTree env manager W checkpoint ast)) @ [ClearCheckpoint]"
      using Inr Some
      by (simp add: visitAllIdentifiersWithCheckpoint_def manager_def checkpoint_def
          finalState_def split: sum.splits prod.splits option.splits)
    then show ?thesis by blast
  qed
qed

lemma visitAll_trace_fine:
  "\<exists>manager seen. \<forall>ev \<in> set (snd (visitAllIdentifiersWithCheckpoint env s code W options)).
      ev = ClearCheckpoint \<or> fineEvent manager seen ev"
  using visitAll_trace_cases [of env s code W options] visitTree_trace_fine
  by (elim disjE exE) (simp, fastforce, fastforce)

lemma fine_saved_index:
  "\<forall>ev \<in> set evs. ev = ClearCheckpoint \<or> fineEvent manager seen ev \<Longrightarrow>
     \<forall>c \<in> set (savedCheckpoints evs). currentFileIndex c = 0"
  by (induction evs) (auto simp: savedCheckpoints_def fineEvent_def split: event.splits)

text \<open>
  C10.  Every checkpoint that the identifier visitor saves, in the periodic save and in
  the save on an error, has the file index 0; the driver, resuming from a store that
  holds such a checkpoint, starts at file 0.
\<close>

theorem C10_saved_file_index_zero:
  "\<forall>c \<in> set (savedCheckpoints (snd (visitAllIdentifiersWithCheckpoint env s code W options))).
      currentFileIndex c = 0 \<and> startFileIndex True True (saveCheckpoint c s') = 0"
proof -
  obtain manager seen where
    "\<forall>ev \<in> set (snd (visitAllIdentifiersWithCheckpoint env s code W options)).
        ev = ClearCheckpoint \<or> fineEvent manager seen ev"
    using visitAll_trace_fine by blast
  from fine_saved_index [OF this] show ?thesis
    by (simp add: startFileIndex_def loadCheckpoint_def saveCheckpoint_def)
qed

theorem C10_saved_file_index_zero_witness:
  "savedCheckpoints (snd (visitAllIdentifiersWithCheckpoint firstRunEnv emptyStore
       (source twoFunctions) 1000 (withManager 5))) = [interrupted] \<and>
   currentFileIndex interrupted = 0 \<and>
   startFileIndex True True (saveCheckpoint interrupted emptyStore) = 0"
proof -
  have saved: "savedCheckpoints (snd (visitAllIdentifiersWithCheckpoint firstRunEnv emptyStore
       (source twoFunctions) 1000 (withManager 5))) = [interrupted]"
    by (simp add: firstRun_leaves_interrupted savedCheckpoints_def)
  show ?thesis
    using C10_saved_file_index_zero [of firstRunEnv emptyStore "source twoFunctions" 1000
        "withManager 5" emptyStore]
    unfolding saved by simp
qed

section \<open>Shards of the visitor and the merge\<close>

lemma update_member: "x \<in> set (AList.update k v al) \<Longrightarrow> snd x = v \<or> x \<in> set al"
  by (induction al) (auto split: if_splits)

lemma savePartialResults_no_renames:
  assumes "\<forall>r \<in> set (loadPartialResults s). pr_renames r = None" and "pr_renames d = None"
  shows "\<forall>r \<in> set (loadPartialResults (savePartialResults l d t s)). pr_renames r = None"
proof
  fix r assume "r \<in> set (loadPartialResults (savePartialResults l d t s))"
  then obtain x where x: "x \<in> set (AList.update (basename l, t) d (partialFiles s))" "r = snd x"
    by (auto simp: loadPartialResults_def savePartialResults_def)
  from update_member [OF x(1)] show "pr_renames r = None"
  proof
    assume "snd x = d"
    then show ?thesis using x(2) assms(2) by simp
  next
    assume "x \<in> set (partialFiles s)"
    then have "r \<in> set (loadPartialResults s)" using x(2) by (simp add: loadPartialResults_def)
    then show ?thesis using assms(1) by blast
  qed
qed

lemma applyEvent_no_renames:
  assumes "\<forall>r \<in> set (loadPartialResults s). pr_renames r = None"
    and "ev = ClearCheckpoint \<or> fineEvent manager seen ev"
  shows "\<forall>r \<in> set (loadPartialResults (applyEvent ev s)). pr_renames r = None"
proof (cases ev)
  case (Visitor n c)
  then show ?thesis using assms(1) by simp
next
  case (SavePartialResults l d t)
  then have "pr_renames d = None" using assms(2) by (simp add: fineEvent_def)
  from savePartialResults_no_renames [OF assms(1) this] show ?thesis
    using SavePartialResults by simp
next
  case (SaveCheckpoint c)
  then show ?thesis using assms(1) by (simp add: loadPartialResults_def saveCheckpoint_def)
next
  case ClearCheckpoint
  then show ?thesis using assms(1) by (simp add: loadPartialResults_def clearCheckpoint_def)
qed

lemma applyTrace_no_renames:
  assumes "\<forall>r \<in> set (loadPartialResults s). pr_renames r = None"
    and "\<forall>ev \<in> set evs. ev = ClearCheckpoint \<or> fineEvent manager seen ev"
  shows "\<forall>r \<in> set (loadPartialResults (applyTrace evs s)). pr_renames r = None"
  using assms unfolding applyTrace_def
proof (induction evs arbitrary: s)
  case Nil
  then show ?case by simp
next
  case (Cons ev evs)
  have ev: "ev = ClearCheckpoint \<or> fineEvent manager seen ev"
    and evs: "\<forall>ev \<in> set evs. ev = ClearCheckpoint \<or> fineEvent manager seen ev"
    using Cons.prems(2) by simp_all
  have "\<forall>r \<in> set (loadPartialResults (applyEvent ev s)). pr_renames r = None"
    by (rule applyEvent_no_renames [OF Cons.prems(1) ev])
  from Cons.IH [OF this evs] show ?case by simp
qed

text \<open>Whatever the visitor writes into a store without \<open>renames\<close> shards, the merge of that
  store is empty.\<close>

lemma visitor_shards_merge_empty:
  assumes "\<forall>r \<in> set (loadPartialResults s). pr_renames r = None"
  shows "mergePartialResults
           (applyTrace (snd (visitAllIdentifiersWithCheckpoint env s' code W options)) s) = []"
proof -
  obtain manager seen where
    "\<forall>ev \<in> set (snd (visitAllIdentifiersWithCheckpoint env s' code W options)).
        ev = ClearCheckpoint \<or> fineEvent manager seen ev"
    using visitAll_trace_fine by blast
  from applyTrace_no_renames [OF assms this] show ?thesis
    by (simp add: mergePartialResults_def mergeResults_no_renames)
qed

lemma renameRun_value:
  "renameRun =
     (Inr ''f;x;g;_x;'',
      [Visitor ''a'' (source twoFunctions),
       SavePartialResults ''rename_1000_x'' (renameShard ''x'' ''x'' 1001) 1002,
       Visitor ''a'' (source twoFunctions),
       SavePartialResults ''rename_1003__x'' (renameShard ''_x'' ''_x'' 1004) 1005,
       Visitor ''f'' (source twoFunctions),
       Visitor ''g'' (source twoFunctions),
       ClearCheckpoint])"
  by code_simp

lemma renameRun_store:
  "applyTrace (snd renameRun) emptyStore =
     \<lparr>checkpointFile = None,
      partialFiles = [((''rename_1000_x'', 1002), renameShard ''x'' ''x'' 1001),
                      ((''rename_1003__x'', 1005), renameShard ''_x'' ''_x'' 1004)],
      mappingFile = None\<rparr>"
  unfolding renameRun_value
  by (simp add: applyTrace_def emptyStore_def savePartialResults_def clearCheckpoint_def
      basename_def)

text \<open>
  C1.  The merge folds the pairs of the shards into one map, the later shard winning
  (\<open>mergePartialResults_last_wins\<close>), and the shard written after an accepted rename
  contributes its pair.  On the code the second half fails: the visitor writes shards
  with the fields \<open>originalName\<close>, \<open>newName\<close> and \<open>timestamp\<close>, and the merge reads the
  field \<open>renames\<close> only.  The run on \<open>function f(a){}function g(a){}\<close> with an oracle
  that proposes \<open>x\<close> for \<open>a\<close> accepts two renames and leaves two shards, and the merge
  of the store is the empty map.
\<close>

theorem C1_rename_shards_not_merged:
  "map newName (loadPartialResults (applyTrace (snd renameRun) emptyStore))
     = [Some ''x'', Some ''_x''] \<and>
   mergePartialResults (applyTrace (snd renameRun) emptyStore) = []"
  unfolding renameRun_store
  by (simp add: loadPartialResults_def mergePartialResults_def renameShard_def)

section \<open>The save interval\<close>

lemma saveInterval_ignored:
  "visitAllIdentifiersWithCheckpoint env s code W
     (Some \<lparr>checkpointManager = manager, saveInterval = k\<rparr>)
   = visitAllIdentifiersWithCheckpoint env s code W
     (Some \<lparr>checkpointManager = manager, saveInterval = k'\<rparr>)"
  by (simp add: visitAllIdentifiersWithCheckpoint_def)

text \<open>
  C5.  A checkpoint is to be saved after every \<open>K\<close> processed bindings, \<open>K\<close> being the save
  interval of the caller.  The code binds the interval to a variable that nothing reads
  (\<open>saveInterval_ignored\<close>) and saves when the count is a multiple of 5.  With the
  interval 10 of the local model and five bindings, a checkpoint is saved after the
  fifth binding.
\<close>

theorem C5_checkpoint_after_five_with_interval_ten:
  "savedCheckpoints (snd (visitAllIdentifiersWithCheckpoint fiveEnv emptyStore (source fiveVars)
       1000 (withManager 10)))
   = [\<lparr>processedIdentifiers = [''a'', ''y'', ''c'', ''d'', ''e''], renames = [(''b'', ''y'')],
       currentFileIndex = 0, currentIdentifierIndex = 5, timestamp = 1003\<rparr>]"
  by code_simp

section \<open>The checkpoint saved on an error\<close>

lemma checkpoint_on_oracle_failure:
  assumes "\<not> set_has (v_visited st) (nodeName env (v_ast st) p)"
    and "nodeType env (v_ast st) p = ''Identifier''"
    and "visitor env (v_trace st) (nodeName env (v_ast st) p) (contextOf env W p st) = Inl e"
  shows "visitGuarded env True W (p # rest) st =
           Inl (e, (called env W p st)
                 \<lparr>v_ticks := v_ticks st + 1,
                  v_trace := v_trace st @
                    [Visitor (nodeName env (v_ast st) p) (contextOf env W p st),
                     SaveCheckpoint
                       \<lparr>processedIdentifiers = v_processedIdentifiers st,
                        renames = v_renamesMap st, currentFileIndex = 0,
                        currentIdentifierIndex = v_processedCount st,
                        timestamp = dateNow env (v_ticks st)\<rparr>]\<rparr>)"
  using visitBinding_throws [OF assms, of True]
  by (simp add: visitGuarded_def saveProgress_def)












section \<open>Collision-safe names\<close>

lemma map_of_map_set: "map_of (map_set k v m) k = Some v"
  by (simp add: map_set_def update_conv')

lemma visitBinding_renamed_map:
  assumes "\<not> set_has (v_visited st) (nodeName env (v_ast st) p)"
    and "nodeType env (v_ast st) p = ''Identifier''"
    and "visitor env (v_trace st) (nodeName env (v_ast st) p) (contextOf env W p st) = Inr renamed"
    and "renamed \<noteq> nodeName env (v_ast st) p"
  shows "v_renamesMap (finalState (visitBinding env manager W p st)) =
           map_set (nodeName env (v_ast st) p) (safeName env p renamed st) (v_renamesMap st)"
proof -
  let ?c = "called env W p st"
  note k = applyRename_kept [OF refl, of env manager p renamed ?c]
  have s: "safeName env p renamed ?c = safeName env p renamed st"
    by (simp add: safeName_def)
  show ?thesis
  proof (cases "applyRename env manager p renamed ?c")
    case (Inl failed)
    then show ?thesis
      using visitBinding_renamed [OF assms, of manager] k(4) s by simp
  next
    case (Inr st2)
    then have "v_renamesMap st2 =
        map_set (nodeName env (v_ast st) p) (safeName env p renamed st) (v_renamesMap st)"
      using k(4) s by (simp add: finalState_def)
    then show ?thesis
      using visitBinding_renamed [OF assms, of manager] Inr
      by (simp add: finalState_def afterVisit_kept)
  qed
qed

text \<open>
  C3.  When a binding is visited and the name that the oracle proposes differs from the
  name of the binding, the name stored for the binding in the rename map is the
  sanitized proposal with \<open>k\<close> underscores in front, where \<open>k\<close> is the least number for
  which this name is neither an accepted rename target nor a name bound in the scope of
  the binding; \<open>k\<close> is positive exactly when the sanitized proposal itself collides.
\<close>

theorem C3_collision_resolution:
  assumes "\<not> set_has (v_visited st) (nodeName env (v_ast st) p)"
    and "nodeType env (v_ast st) p = ''Identifier''"
    and "visitor env (v_trace st) (nodeName env (v_ast st) p) (contextOf env W p st) = Inr renamed"
    and "renamed \<noteq> nodeName env (v_ast st) p"
  shows "\<exists>k. map_of (v_renamesMap (finalState (visitBinding env manager W p st)))
                (nodeName env (v_ast st) p)
              = Some (replicate k CHR ''_'' @ toIdentifier env renamed) \<and>
             replicate k CHR ''_'' @ toIdentifier env renamed
               \<notin> set (v_renames st) \<union> set (scopeBindings env (v_ast st) p) \<and>
             (\<forall>j<k. replicate j CHR ''_'' @ toIdentifier env renamed
               \<in> set (v_renames st) \<union> set (scopeBindings env (v_ast st) p))"
proof -
  obtain k where k:
    "safeName env p renamed st = replicate k CHR ''_'' @ toIdentifier env renamed"
    "safeName env p renamed st \<notin> set (v_renames st) \<union> set (scopeBindings env (v_ast st) p)"
    "\<forall>j<k. replicate j CHR ''_'' @ toIdentifier env renamed
       \<in> set (v_renames st) \<union> set (scopeBindings env (v_ast st) p)"
    using avoidCollisions_minimal
      [of "v_renames st" "scopeBindings env (v_ast st) p" "toIdentifier env renamed"]
    unfolding safeName_def by blast
  have "map_of (v_renamesMap (finalState (visitBinding env manager W p st)))
          (nodeName env (v_ast st) p) = Some (safeName env p renamed st)"
    unfolding visitBinding_renamed_map [OF assms] by (rule map_of_map_set)
  then show ?thesis using k by (intro exI [of _ k]) simp
qed

theorem C3_collision_resolution_witness:
  "map_of (v_renamesMap (finalState (visitBinding renameEnv True 1000 3 resumedState))) ''a''
     = Some ''_x'' \<and>
   (\<exists>k. map_of (v_renamesMap (finalState (visitBinding renameEnv True 1000 3 resumedState)))
            (nodeName renameEnv (v_ast resumedState) 3)
          = Some (replicate k CHR ''_'' @ toIdentifier renameEnv ''x'') \<and>
         replicate k CHR ''_'' @ toIdentifier renameEnv ''x''
           \<notin> set (v_renames resumedState) \<union> set (scopeBindings renameEnv (v_ast resumedState) 3) \<and>
         (\<forall>j<k. replicate j CHR ''_'' @ toIdentifier renameEnv ''x''
           \<in> set (v_renames resumedState) \<union> set (scopeBindings renameEnv (v_ast resumedState) 3)))"
proof -
  have h1: "\<not> set_has (v_visited resumedState) (nodeName renameEnv (v_ast resumedState) 3)"
    by code_simp
  have h2: "nodeType renameEnv (v_ast resumedState) 3 = ''Identifier''"
    by code_simp
  have h3: "visitor renameEnv (v_trace resumedState) (nodeName renameEnv (v_ast resumedState) 3)
              (contextOf renameEnv 1000 3 resumedState) = Inr ''x''"
    by code_simp
  have h4: "''x'' \<noteq> nodeName renameEnv (v_ast resumedState) 3"
    by code_simp
  have v: "map_of (v_renamesMap (finalState (visitBinding renameEnv True 1000 3 resumedState))) ''a''
     = Some ''_x''"
    by code_simp
  show ?thesis
    by (intro conjI) (rule v, rule C3_collision_resolution [OF h1 h2 h3 h4])
qed

section \<open>Shards of single decisions\<close>

lemma applyRename_ok:
  assumes "scopeRename env (v_ast st) p (nodeName env (v_ast st) p) (safeName env p renamed st)
             = Inr ast'"
  shows "\<exists>st2 l d t. applyRename env True p renamed st = Inr st2 \<and>
           v_trace st2 = v_trace st @ [SavePartialResults l d t] \<and>
           newName d = Some (safeName env p renamed st) \<and>
           v_processedCount st2 = v_processedCount st"
  using assms by (simp add: applyRename_def safeName_def Let_def)

lemma afterVisit_rest:
  "\<exists>rest. v_trace (afterVisit env manager p st) = v_trace st @ rest \<and>
          (rest = [] \<or> (\<exists>c. rest = [SaveCheckpoint c]))"
  by (simp add: afterVisit_trace)

text \<open>
  C7, as stated, fails for the decisions that leave the name unchanged.  On
  \<open>var a,b,c,d,e;\<close> with an oracle that answers every name by itself, five bindings are
  visited and no shard is written.
\<close>

theorem C7_no_shard_for_unchanged_name:
  "length (visitorCalls (snd (visitAllIdentifiersWithCheckpoint noopEnv emptyStore
       (source fiveVars) 1000 (withManager 5)))) = 5 \<and>
   savedShards (snd (visitAllIdentifiersWithCheckpoint noopEnv emptyStore
       (source fiveVars) 1000 (withManager 5))) = []"
  by code_simp

text \<open>
  C7, amended.  With a checkpoint manager, for a visited binding whose oracle call
  returns: if the proposal differs from the name and the rename is applied, the calls of
  this turn of the loop are the call of the visitor, then the saving of one shard that
  carries the new name, then at most the periodic checkpoint, so that the shard is saved
  before any further binding is visited; if the proposal is the name itself, the calls
  are the call of the visitor and at most the periodic checkpoint, and no shard.
\<close>

theorem C7_shard_after_accepted_rename:
  assumes "\<not> set_has (v_visited st) (nodeName env (v_ast st) p)"
    and "nodeType env (v_ast st) p = ''Identifier''"
    and "visitor env (v_trace st) (nodeName env (v_ast st) p) (contextOf env W p st) = Inr renamed"
  shows "(renamed \<noteq> nodeName env (v_ast st) p \<and>
          (\<exists>ast'. scopeRename env (v_ast st) p (nodeName env (v_ast st) p)
                     (safeName env p renamed st) = Inr ast') \<longrightarrow>
            (\<exists>st' l d t rest.
               visitBinding env True W p st = Inr st' \<and>
               v_trace st' = v_trace st @
                 [Visitor (nodeName env (v_ast st) p) (contextOf env W p st),
                  SavePartialResults l d t] @ rest \<and>
               newName d = Some (safeName env p renamed st) \<and>
               (rest = [] \<or> (\<exists>c. rest = [SaveCheckpoint c])))) \<and>
         (renamed = nodeName env (v_ast st) p \<longrightarrow>
            (\<exists>st' rest.
               visitBinding env True W p st = Inr st' \<and>
               v_trace st' = v_trace st @
                 [Visitor (nodeName env (v_ast st) p) (contextOf env W p st)] @ rest \<and>
               (rest = [] \<or> (\<exists>c. rest = [SaveCheckpoint c]))))"
proof (intro conjI impI)
  assume a: "renamed \<noteq> nodeName env (v_ast st) p \<and>
          (\<exists>ast'. scopeRename env (v_ast st) p (nodeName env (v_ast st) p)
                     (safeName env p renamed st) = Inr ast')"
  let ?c = "called env W p st"
  have sc: "safeName env p renamed ?c = safeName env p renamed st"
    by (simp add: safeName_def)
  from a obtain ast' where
    "scopeRename env (v_ast st) p (nodeName env (v_ast st) p) (safeName env p renamed st) = Inr ast'"
    by (elim conjE exE)
  then have
    "scopeRename env (v_ast ?c) p (nodeName env (v_ast ?c) p) (safeName env p renamed ?c) = Inr ast'"
    by (simp add: sc)
  from applyRename_ok [OF this] obtain st2 l d t where r:
    "applyRename env True p renamed ?c = Inr st2"
    "v_trace st2 = v_trace ?c @ [SavePartialResults l d t]"
    "newName d = Some (safeName env p renamed ?c)"
    by (elim conjE exE)
  from afterVisit_rest [of env True p st2] obtain rest where rest:
    "v_trace (afterVisit env True p st2) = v_trace st2 @ rest"
    "rest = [] \<or> (\<exists>c. rest = [SaveCheckpoint c])"
    by (elim conjE exE)
  have v: "visitBinding env True W p st = Inr (afterVisit env True p st2)"
    using visitBinding_renamed [OF assms, of True] a r(1) by simp
  have t: "v_trace (afterVisit env True p st2) = v_trace st @
            [Visitor (nodeName env (v_ast st) p) (contextOf env W p st),
             SavePartialResults l d t] @ rest"
    using rest(1) r(2) by simp
  have n: "newName d = Some (safeName env p renamed st)"
    using r(3) by (simp only: sc)
  show "\<exists>st' l d t rest.
               visitBinding env True W p st = Inr st' \<and>
               v_trace st' = v_trace st @
                 [Visitor (nodeName env (v_ast st) p) (contextOf env W p st),
                  SavePartialResults l d t] @ rest \<and>
               newName d = Some (safeName env p renamed st) \<and>
               (rest = [] \<or> (\<exists>c. rest = [SaveCheckpoint c]))"
    using v t n rest(2) by (intro exI conjI) assumption+
next
  assume a: "renamed = nodeName env (v_ast st) p"
  let ?c = "called env W p st"
  from afterVisit_rest [of env True p ?c] obtain rest where rest:
    "v_trace (afterVisit env True p ?c) = v_trace ?c @ rest"
    "rest = [] \<or> (\<exists>c. rest = [SaveCheckpoint c])"
    by (elim conjE exE)
  have v: "visitBinding env True W p st = Inr (afterVisit env True p ?c)"
    using visitBinding_unchanged [OF assms(1,2), of W True] assms(3) a by simp
  have t: "v_trace (afterVisit env True p ?c) = v_trace st @
            [Visitor (nodeName env (v_ast st) p) (contextOf env W p st)] @ rest"
    using rest(1) by simp
  show "\<exists>st' rest.
               visitBinding env True W p st = Inr st' \<and>
               v_trace st' = v_trace st @
                 [Visitor (nodeName env (v_ast st) p) (contextOf env W p st)] @ rest \<and>
               (rest = [] \<or> (\<exists>c. rest = [SaveCheckpoint c]))"
    using v t rest(2) by (intro exI conjI) assumption+
qed

text \<open>Two runs of the driver on one extracted file, \<open>function f(a){}function g(a){}\<close>, with
  one rename plugin.\<close>

theorem C7_shard_after_accepted_rename_witness:
  "savedShards (v_trace (finalState (visitBinding renameEnv True 1000 3 resumedState)))
     = [renameShard ''_x'' ''_x'' 1001] \<and>
   (\<exists>st' l d t rest.
       visitBinding renameEnv True 1000 3 resumedState = Inr st' \<and>
       v_trace st' = v_trace resumedState @
         [Visitor (nodeName renameEnv (v_ast resumedState) 3) (contextOf renameEnv 1000 3 resumedState),
          SavePartialResults l d t] @ rest \<and>
       newName d = Some (safeName renameEnv 3 ''x'' resumedState) \<and>
       (rest = [] \<or> (\<exists>c. rest = [SaveCheckpoint c])))"
proof -
  have h1: "\<not> set_has (v_visited resumedState) (nodeName renameEnv (v_ast resumedState) 3)"
    by code_simp
  have h2: "nodeType renameEnv (v_ast resumedState) 3 = ''Identifier''"
    by code_simp
  have h3: "visitor renameEnv (v_trace resumedState) (nodeName renameEnv (v_ast resumedState) 3)
              (contextOf renameEnv 1000 3 resumedState) = Inr ''x''"
    by code_simp
  have h4: "''x'' \<noteq> nodeName renameEnv (v_ast resumedState) 3"
    by code_simp
  have "scopeRename renameEnv (v_ast resumedState) 3 (nodeName renameEnv (v_ast resumedState) 3)
          (safeName renameEnv 3 ''x'' resumedState) = Inr [''f'', ''x'', ''g'', ''_x'']"
    by code_simp
  then have h5: "\<exists>ast'. scopeRename renameEnv (v_ast resumedState) 3
          (nodeName renameEnv (v_ast resumedState) 3)
          (safeName renameEnv 3 ''x'' resumedState) = Inr ast'"
    by (rule exI)
  have v: "savedShards (v_trace (finalState (visitBinding renameEnv True 1000 3 resumedState)))
     = [renameShard ''_x'' ''_x'' 1001]"
    by code_simp
  from C7_shard_after_accepted_rename [OF h1 h2 h3, THEN conjunct1, THEN mp, OF conjI [OF h4 h5]] v
  show ?thesis by (intro conjI)
qed

section \<open>The end of a successful run of the driver\<close>

lemma storeGrows_refl: "storeGrows s s"
  by (simp add: storeGrows_def)

lemma storeGrows_trans: "storeGrows a b \<Longrightarrow> storeGrows b c \<Longrightarrow> storeGrows a c"
  unfolding storeGrows_def by (elim conjE, intro conjI) (rule subset_trans, assumption+, simp)

lemma storeGrows_saveCheckpoint: "storeGrows s (saveCheckpoint c s)"
  by (simp add: storeGrows_def saveCheckpoint_def)

lemma storeGrows_applyEvent: "storeGrows s (applyEvent ev s)"
proof (cases ev)
  case (SavePartialResults l d t)
  have "fst ` set (partialFiles s)
          \<subseteq> fst ` set (AList.update (basename l, t) d (partialFiles s))"
    unfolding dom_update by (rule Un_upper2)
  then show ?thesis
    using SavePartialResults by (simp add: storeGrows_def savePartialResults_def)
qed (simp_all add: storeGrows_def saveCheckpoint_def clearCheckpoint_def)

lemma storeGrows_applyTrace: "storeGrows s (applyTrace evs s)"
  unfolding applyTrace_def
proof (induction evs arbitrary: s)
  case Nil
  show ?case by (simp add: storeGrows_refl)
next
  case (Cons ev evs)
  from storeGrows_trans [OF storeGrows_applyEvent [of s ev] Cons.IH [of "applyEvent ev s"]]
  show ?case by simp
qed

lemma storeGrows_runPlugin: "storeGrows s (snd (runPlugin manager plugin s code))"
proof (cases plugin)
  case (Plain f)
  then show ?thesis by (simp add: runPlugin_def storeGrows_refl)
next
  case (Renamer f env W k)
  show ?thesis
  proof (cases manager)
    case False
    then show ?thesis using Renamer by (simp add: runPlugin_def storeGrows_refl)
  next
    case True
    then show ?thesis
      using Renamer storeGrows_applyTrace [of s]
      by (simp add: runPlugin_def split: prod.splits)
  qed
qed

lemma storeGrows_pluginWithCheckpoint:
  "storeGrows (fst st) (fst (snd (pluginWithCheckpoint manager clock i plugin st code)))"
proof -
  obtain r s' where r: "runPlugin manager plugin (fst st) code = (r, s')"
    by (cases "runPlugin manager plugin (fst st) code")
  then have g: "storeGrows (fst st) s'"
    using storeGrows_runPlugin [of "fst st" manager plugin code] by simp
  show ?thesis
  proof (cases r)
    case (Inr formatted)
    then show ?thesis using r g by (simp add: pluginWithCheckpoint_def)
  next
    case (Inl e)
    show ?thesis
    proof (cases manager)
      case False
      then show ?thesis using r g Inl by (simp add: pluginWithCheckpoint_def)
    next
      case True
      then show ?thesis
        using r Inl storeGrows_trans [OF g storeGrows_saveCheckpoint]
        by (simp add: pluginWithCheckpoint_def)
    qed
  qed
qed

lemma storeGrows_runChain:
  "storeGrows (fst st) (fst (snd (runChain manager clock i plugins st code)))"
proof (induction plugins arbitrary: st code)
  case Nil
  show ?case by (simp add: storeGrows_refl)
next
  case (Cons plugin rest)
  obtain r st' where p: "pluginWithCheckpoint manager clock i plugin st code = (r, st')"
    by (cases "pluginWithCheckpoint manager clock i plugin st code")
  then have g: "storeGrows (fst st) (fst st')"
    using storeGrows_pluginWithCheckpoint [of st manager clock i plugin code] by simp
  show ?case
  proof (cases r)
    case (Inl e)
    then show ?thesis using p g by simp
  next
    case (Inr code')
    from storeGrows_trans [OF g Cons.IH [of st' code']]
    show ?thesis using p Inr by simp
  qed
qed

lemma storeGrows_processFiles:
  "storeGrows (d_store d) (d_store (finalDState (processFiles manager clock plugins indices d)))"
proof (induction indices arbitrary: d)
  case Nil
  show ?case by (simp add: finalDState_def storeGrows_refl)
next
  case (Cons i rest)
  show ?case
  proof (cases "blank (d_files d ! i)")
    case True
    then show ?thesis using Cons.IH [of d] by simp
  next
    case False
    obtain r s' t' where c:
      "runChain manager clock i plugins (d_store d, d_ticks d) (d_files d ! i) = (r, s', t')"
      by (cases "runChain manager clock i plugins (d_store d, d_ticks d) (d_files d ! i)")
    then have g: "storeGrows (d_store d) s'"
      using storeGrows_runChain [of "(d_store d, d_ticks d)" manager clock i plugins "d_files d ! i"]
      by simp
    show ?thesis
    proof (cases r)
      case (Inl e)
      then show ?thesis using False c g by (simp add: finalDState_def)
    next
      case (Inr formattedCode)
      let ?next = "if manager
                      then d\<lparr>d_files := (d_files d)[i := formattedCode],
                             d_store := saveCheckpoint
                               \<lparr>processedIdentifiers = [], renames = [],
                                currentFileIndex = i + 1, currentIdentifierIndex = 0,
                                timestamp = clock t'\<rparr> s',
                             d_ticks := t' + 1\<rparr>
                      else d\<lparr>d_files := (d_files d)[i := formattedCode],
                             d_store := s', d_ticks := t'\<rparr>"
      have "storeGrows (d_store d) (d_store ?next)"
        using g storeGrows_trans [OF g storeGrows_saveCheckpoint] by simp
      from storeGrows_trans [OF this Cons.IH [of ?next]]
      show ?thesis using False c Inr by simp
    qed
  qed
qed

lemma finish_store:
  "partialFiles (finish manager s) = partialFiles s"
  "checkpointFile (finish True s) = None"
  "mappingFile (finish True s) =
     (if mergePartialResults s = [] then mappingFile s else Some (mergePartialResults s))"
  "mergePartialResults (finish manager s) = mergePartialResults s"
  by (simp_all add: finish_def clearCheckpoint_def mergePartialResults_def
      loadPartialResults_def Let_def)

lemma driverRun_value:
  "driverRun =
     (Inr (),
      \<lparr>d_store =
         \<lparr>checkpointFile = None,
          partialFiles = [((''rename_1000_x'', 1002), renameShard ''x'' ''x'' 1001),
                          ((''rename_1003__x'', 1005), renameShard ''_x'' ''_x'' 1004)],
          mappingFile = None\<rparr>,
       d_files = [''f;x;g;_x;''], d_ticks = 1\<rparr>)"
  by code_simp

lemma driverRunWithShard_value:
  "driverRunWithShard =
     (Inr (),
      \<lparr>d_store =
         \<lparr>checkpointFile = None,
          partialFiles = [((''file1.js'', 7), testShard),
                          ((''rename_1000_x'', 1002), renameShard ''x'' ''x'' 1001),
                          ((''rename_1003__x'', 1005), renameShard ''_x'' ''_x'' 1004)],
          mappingFile = Some [(''q'', ''queue'')]\<rparr>,
       d_files = [''f;x;g;_x;''], d_ticks = 1\<rparr>)"
  by code_simp

text \<open>
  C8, as stated, fails for the shards.  The driver runs one rename plugin over the file
  \<open>function f(a){}function g(a){}\<close> from an empty store and ends without an error; the
  two shards that the visitor wrote are still in the store.
\<close>

theorem C8_shards_remain_after_completion:
  "fst driverRun = Inr () \<and> partialFiles (d_store (snd driverRun)) \<noteq> []"
  unfolding driverRun_value by simp

text \<open>
  C8, amended.  When a run of the driver with checkpoints enabled ends without an error,
  the checkpoint record is removed; no shard record is removed: the shard files of the
  final store are those that the store held when the last file was done, and every
  shard file of the initial store is among them; the mapping file is written when the
  merge of the shards is not empty, and is otherwise left as it was.
\<close>

theorem C8_successful_completion:
  assumes "unminifyWithCheckpoint extracted plugins options clock s = (Inr (), d')"
    and "enableCheckpoint options \<noteq> Some False"
  shows "checkpointFile (d_store d') = None \<and>
         fst ` set (partialFiles s) \<subseteq> fst ` set (partialFiles (d_store d')) \<and>
         mappingFile (d_store d') =
           (if mergePartialResults (d_store d') = [] then mappingFile s
            else Some (mergePartialResults (d_store d'))) \<and>
         (\<exists>files d.
            extracted = Inr files \<and>
            processFiles True clock plugins
              [startFileIndex True
                 (case resumeFromCheckpoint options of None \<Rightarrow> False | Some b \<Rightarrow> b) s
               ..< length files]
              \<lparr>d_store = s, d_files = files, d_ticks = 0\<rparr> = Inr d \<and>
            partialFiles (d_store d') = partialFiles (d_store d))"
proof -
  define resume where
    "resume = (case resumeFromCheckpoint options of None \<Rightarrow> False | Some b \<Rightarrow> b)"
  have manager: "(case enableCheckpoint options of None \<Rightarrow> True | Some b \<Rightarrow> b) = True"
    using assms(2) by (cases "enableCheckpoint options") auto
  obtain files where files: "extracted = Inr files"
    using assms(1) by (cases extracted) (simp_all add: unminifyWithCheckpoint_def Let_def)
  let ?loop = "processFiles True clock plugins [startFileIndex True resume s ..< length files]
                 \<lparr>d_store = s, d_files = files, d_ticks = 0\<rparr>"
  have run: "unminifyWithCheckpoint extracted plugins options clock s =
               (case ?loop of Inl (e, d) \<Rightarrow> (Inl e, d)
                | Inr d \<Rightarrow> (Inr (), d\<lparr>d_store := finish True (d_store d)\<rparr>))"
    using files manager by (simp add: unminifyWithCheckpoint_def resume_def)
  obtain d where d: "?loop = Inr d"
    using assms(1) unfolding run by (cases ?loop) (simp_all split: prod.splits)
  have d': "d' = d\<lparr>d_store := finish True (d_store d)\<rparr>"
    using assms(1) unfolding run d by simp
  have "storeGrows s (d_store d)"
    using storeGrows_processFiles [of "\<lparr>d_store = s, d_files = files, d_ticks = 0\<rparr>" True clock
        plugins "[startFileIndex True resume s ..< length files]"]
    unfolding d by (simp add: finalDState_def)
  then have g: "fst ` set (partialFiles s) \<subseteq> fst ` set (partialFiles (d_store d))"
    "mappingFile (d_store d) = mappingFile s"
    by (simp_all add: storeGrows_def)
  have 1: "checkpointFile (d_store d') = None"
    unfolding d' by (simp add: finish_store)
  have 2: "partialFiles (d_store d') = partialFiles (d_store d)"
    unfolding d' by (simp add: finish_store)
  have 3: "mappingFile (d_store d') =
           (if mergePartialResults (d_store d') = [] then mappingFile s
            else Some (mergePartialResults (d_store d')))"
    unfolding d' using g(2) by (simp add: finish_store)
  have 4: "\<exists>files d.
            extracted = Inr files \<and>
            processFiles True clock plugins
              [startFileIndex True resume s ..< length files]
              \<lparr>d_store = s, d_files = files, d_ticks = 0\<rparr> = Inr d \<and>
            partialFiles (d_store d') = partialFiles (d_store d)"
    using files d 2 by (intro exI conjI) assumption+
  show ?thesis
    using 1 g(1) 3 4 unfolding 2 resume_def by (intro conjI) assumption+
qed

theorem C8_successful_completion_witness:
  "checkpointFile (d_store (snd driverRunWithShard)) = None \<and>
   fst ` set (partialFiles testStore) \<subseteq> fst ` set (partialFiles (d_store (snd driverRunWithShard))) \<and>
   map fst (partialFiles (d_store (snd driverRunWithShard)))
     = [(''file1.js'', 7), (''rename_1000_x'', 1002), (''rename_1003__x'', 1005)] \<and>
   mappingFile (d_store (snd driverRunWithShard)) = Some [(''q'', ''queue'')]"
proof -
  have run: "unminifyWithCheckpoint (Inr [source twoFunctions]) [Renamer Inr renameEnv 1000 5]
               defaultOptions driverClock testStore = (Inr (), snd driverRunWithShard)"
    unfolding driverRunWithShard_def [symmetric] driverRunWithShard_value by simp
  have opt: "enableCheckpoint defaultOptions \<noteq> Some False"
    by (simp add: defaultOptions_def)
  have files: "map fst (partialFiles (d_store (snd driverRunWithShard)))
     = [(''file1.js'', 7), (''rename_1000_x'', 1002), (''rename_1003__x'', 1005)]"
    and mapping: "mappingFile (d_store (snd driverRunWithShard)) = Some [(''q'', ''queue'')]"
    unfolding driverRunWithShard_value by simp_all
  from C8_successful_completion [OF run opt] files mapping
  show ?thesis by (intro conjI) (elim conjE, assumption)+
qed

end
